theory Spec2Isabelle
  imports Complex_Main "HOL-Library.Sublist" "HOL-Library.AList"
begin

section \<open>Python strings\<close>

text \<open>
  A Python \<^verbatim>\<open>str\<close> is a sequence of Unicode code points.  A code point is a natural
  number; an ASCII literal of the source is written \<open>ustr ''...''\<close>.
\<close>

type_synonym codepoint = nat
type_synonym pystr = "codepoint list"

definition ustr :: "string \<Rightarrow> pystr" where
  "ustr s = map of_char s"

text \<open>
  \<^verbatim>\<open>str.isspace\<close> of one code point: the white space \<^verbatim>\<open>str.strip()\<close> removes.
\<close>

definition is_space :: "codepoint \<Rightarrow> bool" where
  "is_space c \<longleftrightarrow>
     (9 \<le> c \<and> c \<le> 13) \<or> (28 \<le> c \<and> c \<le> 32) \<or> c = 133 \<or> c = 160 \<or> c = 5760 \<or>
     (8192 \<le> c \<and> c \<le> 8202) \<or> c = 8232 \<or> c = 8233 \<or> c = 8239 \<or> c = 8287 \<or> c = 12288"

text \<open>\<^verbatim>\<open>s.strip()\<close>: white space removed at both ends.\<close>

definition strip :: "pystr \<Rightarrow> pystr" where
  "strip s = rev (dropWhile is_space (rev (dropWhile is_space s)))"

text \<open>\<^verbatim>\<open>s.startswith(p)\<close>.\<close>

definition startswith :: "pystr \<Rightarrow> pystr \<Rightarrow> bool" where
  "startswith s p \<longleftrightarrow> take (length p) s = p"

text \<open>\<^verbatim>\<open>needle in hay\<close> on strings: the needle occurs as a contiguous substring.\<close>

fun py_in :: "pystr \<Rightarrow> pystr \<Rightarrow> bool" where
  "py_in needle [] = (needle = [])"
| "py_in needle (h # hs) = (take (length needle) (h # hs) = needle \<or> py_in needle hs)"

text \<open>\<^verbatim>\<open>sep.join(xs)\<close>.\<close>

fun join :: "pystr \<Rightarrow> pystr list \<Rightarrow> pystr" where
  "join sep [] = []"
| "join sep [x] = x"
| "join sep (x # y # ys) = x @ sep @ join sep (y # ys)"

text \<open>
  \<^verbatim>\<open>xs[a:b]\<close> for indices \<open>0 \<le> a\<close>, \<open>0 \<le> b\<close>: Python clamps both to the length and
  returns the empty list when \<open>b \<le> a\<close>.
\<close>

definition slice :: "'a list \<Rightarrow> nat \<Rightarrow> nat \<Rightarrow> 'a list" where
  "slice xs a b = drop a (take b xs)"

subsection \<open>Lower-casing\<close>

text \<open>
  \<^verbatim>\<open>str.lower()\<close> reads the Unicode character database, which is not part of the
  repository: it is a parameter of the model.  \<open>to_lower_full\<close> is the full lower-case
  mapping of one code point (a short string), \<open>is_cased\<close> and \<open>is_case_ignorable\<close> are
  the two character properties that the rule for the Greek capital sigma reads.
\<close>

record ucd =
  to_lower_full :: "codepoint \<Rightarrow> pystr"
  is_cased :: "codepoint \<Rightarrow> bool"
  is_case_ignorable :: "codepoint \<Rightarrow> bool"

text \<open>
  The capital sigma U+03A3 (931) becomes the final sigma U+03C2 (962) when it is preceded
  by a cased letter and not followed by one, case-ignorable characters skipped on both
  sides; otherwise it becomes U+03C3 (963).  \<open>left\<close> holds the characters to the left,
  nearest first.
\<close>

definition handle_capital_sigma :: "ucd \<Rightarrow> pystr \<Rightarrow> pystr \<Rightarrow> codepoint" where
  "handle_capital_sigma U left right =
     (let b = dropWhile (is_case_ignorable U) left;
          a = dropWhile (is_case_ignorable U) right
      in if (case b of [] \<Rightarrow> False | c # _ \<Rightarrow> is_cased U c) \<and>
            (case a of [] \<Rightarrow> True | c # _ \<Rightarrow> \<not> is_cased U c)
         then 962 else 963)"

fun do_lower :: "ucd \<Rightarrow> pystr \<Rightarrow> pystr \<Rightarrow> pystr" where
  "do_lower U left [] = []"
| "do_lower U left (c # cs) =
     (if c = 931 then [handle_capital_sigma U left cs] else to_lower_full U c)
       @ do_lower U (c # left) cs"

definition lower :: "ucd \<Rightarrow> pystr \<Rightarrow> pystr" where
  "lower U s = do_lower U [] s"

text \<open>
  The part of the database the ASCII examples need: \<open>A\<close>-\<open>Z\<close> map to \<open>a\<close>-\<open>z\<close> and
  every other ASCII character maps to itself.
\<close>

definition ascii_lower :: "codepoint \<Rightarrow> codepoint" where
  "ascii_lower c = (if 65 \<le> c \<and> c \<le> 90 then c + 32 else c)"

definition ascii_ucd :: "ucd \<Rightarrow> bool" where
  "ascii_ucd U \<longleftrightarrow> (\<forall>c < 128. to_lower_full U c = [ascii_lower c])"

text \<open>
  A small database for evaluating examples: ASCII, and the three sigmas
  (\<open>931 \<mapsto> 963\<close>; 962 and 963 are lower case already).  The cased characters are the
  ASCII letters and the sigmas; the case-ignorable ones are the ASCII characters
  \<^verbatim>\<open>' . : ^ `\<close>.
\<close>

definition small_ucd :: ucd where
  "small_ucd =
     \<lparr> to_lower_full = (\<lambda>c. if c = 931 then [963] else [ascii_lower c]),
       is_cased = (\<lambda>c. (65 \<le> c \<and> c \<le> 90) \<or> (97 \<le> c \<and> c \<le> 122) \<or> c = 931 \<or> c = 962 \<or> c = 963),
       is_case_ignorable = (\<lambda>c. c = 39 \<or> c = 46 \<or> c = 58 \<or> c = 94 \<or> c = 96) \<rparr>"

section \<open>The analyzer\<close>

text \<open>
  The fields of \<^verbatim>\<open>SpiritedAwayAnalyzer\<close>.  \<^verbatim>\<open>characters\<close> is a dict in insertion
  order: an association list.
\<close>

record analyzer =
  script_file :: pystr
  script_text :: pystr
  lines :: "pystr list"
  characters :: "(pystr \<times> nat) list"

datatype py_error = ValueError | KeyError | ZeroDivisionError


subsection \<open>Dictionaries\<close>

text \<open>
  A Python dict keeps its keys in insertion order.  \<open>AList.update\<close> is the assignment
  \<^verbatim>\<open>d[k] = v\<close> (an existing key keeps its place, a new one goes last), \<open>AList.map_entry\<close>
  is the in-place change of the value under an existing key, and \<open>map_of\<close> the lookup.
  \<open>dict_init\<close> is the comprehension \<^verbatim>\<open>{k: v for k in ks}\<close>.
\<close>

definition dict_init :: "'k list \<Rightarrow> 'v \<Rightarrow> ('k \<times> 'v) list" where
  "dict_init ks v = fold (\<lambda>k d. AList.update k v d) ks []"

subsection \<open>\<^verbatim>\<open>extract_characters\<close>\<close>

text \<open>The roster written in \<^verbatim>\<open>extract_characters\<close>.\<close>

definition main_characters :: "pystr list" where
  "main_characters = map ustr
     [''Chihiro'', ''Haku'', ''Yobaba'', ''Zeniba'', ''Rin'',
      ''No Face'', ''Grandpa Kama'', ''Mom'', ''Dad'']"

text \<open>The test of line 54, on the stripped line.\<close>

definition considered :: "pystr \<Rightarrow> bool" where
  "considered line \<longleftrightarrow>
     line \<noteq> [] \<and> \<not> startswith line (ustr ''<'') \<and> \<not> startswith line (ustr ''*'')"

text \<open>The test of line 57: \<^verbatim>\<open>char.lower() in line.lower()\<close>.\<close>

definition mentions :: "ucd \<Rightarrow> pystr \<Rightarrow> pystr \<Rightarrow> bool" where
  "mentions U char line \<longleftrightarrow> py_in (lower U char) (lower U line)"

text \<open>
  The body of the inner loop for one roster name (lines 57-59).  Both dicts hold every
  roster name from their initialisation, so neither access can raise \<^verbatim>\<open>KeyError\<close>.
\<close>

definition record_mention ::
  "ucd \<Rightarrow> pystr \<Rightarrow> pystr \<Rightarrow> (pystr \<times> pystr list) list \<times> (pystr \<times> nat) list
     \<Rightarrow> (pystr \<times> pystr list) list \<times> (pystr \<times> nat) list" where
  "record_mention U line char d =
     (if mentions U char line
      then (AList.map_entry char (\<lambda>ls. ls @ [line]) (fst d), AList.map_entry char Suc (snd d))
      else d)"

text \<open>The body of the outer loop for one raw line (lines 53-59).\<close>

definition scan_line ::
  "ucd \<Rightarrow> pystr list \<Rightarrow> pystr \<Rightarrow> (pystr \<times> pystr list) list \<times> (pystr \<times> nat) list
     \<Rightarrow> (pystr \<times> pystr list) list \<times> (pystr \<times> nat) list" where
  "scan_line U roster raw d =
     (let line = strip raw
      in if considered line then fold (record_mention U line) roster d else d)"

text \<open>
  \<^verbatim>\<open>extract_characters\<close>, with the roster as an argument.  It returns
  \<^verbatim>\<open>(character_lines, character_count)\<close> and the analyzer with \<^verbatim>\<open>self.characters\<close>
  overwritten.
\<close>

definition extract_characters ::
  "ucd \<Rightarrow> pystr list \<Rightarrow> analyzer
     \<Rightarrow> ((pystr \<times> pystr list) list \<times> (pystr \<times> nat) list) \<times> analyzer" where
  "extract_characters U roster s =
     (let character_lines = dict_init roster [];
          character_count = dict_init roster 0;
          d = fold (scan_line U roster) (lines s) (character_lines, character_count)
      in (d, s\<lparr>characters := snd d\<rparr>))"

subsection \<open>\<^verbatim>\<open>create_wordcloud\<close>: the cleaned text\<close>

text \<open>
  \<^verbatim>\<open>re.sub\<close> with the pattern \<^verbatim>\<open>o[^c]+c\<close> and the empty replacement, for an opening
  character \<open>o\<close> and a closing character \<open>c\<close>.  The scan goes from left to right.  At an
  \<open>o\<close> followed by a character other than \<open>c\<close> and, later, by a \<open>c\<close>, the match runs to
  the first such \<open>c\<close> and is dropped, and the scan resumes behind it; anywhere else the
  character is kept.  \<open>find_close c s\<close> is what follows the first \<open>c\<close> of \<open>s\<close>.
\<close>

fun find_close :: "codepoint \<Rightarrow> pystr \<Rightarrow> pystr option" where
  "find_close c [] = None"
| "find_close c (x # xs) = (if x = c then Some xs else find_close c xs)"

lemma find_close_shorter [termination_simp]:
  "find_close c s = Some r \<Longrightarrow> length r < Suc (length s)"
  by (induction s) (auto split: if_splits)

fun sub_span :: "codepoint \<Rightarrow> codepoint \<Rightarrow> pystr \<Rightarrow> pystr" where
  "sub_span o' c [] = []"
| "sub_span o' c [x] = [x]"
| "sub_span o' c (x # y # ys) =
     (if x = o' \<and> y \<noteq> c
      then (case find_close c ys of
              None \<Rightarrow> x # sub_span o' c (y # ys)
            | Some r \<Rightarrow> sub_span o' c r)
      else x # sub_span o' c (y # ys))"

text \<open>Lines 67-71: lower-case first, then the three substitutions.\<close>

definition clean_text :: "ucd \<Rightarrow> pystr \<Rightarrow> pystr" where
  "clean_text U text =
     (let text = lower U text;
          text = sub_span 60 62 text;
          text = sub_span 42 42 text;
          text = sub_span 91 93 text
      in text)"

subsection \<open>\<^verbatim>\<open>sentiment_analysis\<close>\<close>

definition positive_words :: "pystr list" where
  "positive_words = map ustr
     [''good'', ''great'', ''wonderful'', ''beautiful'', ''happy'', ''love'', ''nice'',
      ''amazing'', ''fantastic'', ''excellent'', ''perfect'', ''thank'', ''thanks'']"

definition negative_words :: "pystr list" where
  "negative_words = map ustr
     [''bad'', ''terrible'', ''awful'', ''sad'', ''angry'', ''hate'', ''horrible'',
      ''scary'', ''afraid'', ''worried'', ''sorry'', ''hurt'', ''pain'', ''die'']"

text \<open>Lines 159-160: the bounds of segment \<open>i\<close>.\<close>

definition segment_start :: "nat \<Rightarrow> nat \<Rightarrow> nat" where
  "segment_start total_lines i = i * (total_lines div 10)"

definition segment_end :: "nat \<Rightarrow> nat \<Rightarrow> nat" where
  "segment_end total_lines i =
     (if i < 9 then segment_start total_lines i + total_lines div 10 else total_lines)"

definition segment :: "pystr list \<Rightarrow> nat \<Rightarrow> pystr list" where
  "segment ls i = slice ls (segment_start (length ls) i) (segment_end (length ls) i)"

text \<open>Line 161.\<close>

definition segment_text :: "ucd \<Rightarrow> pystr list \<Rightarrow> pystr" where
  "segment_text U seg = lower U (join (ustr '' '') seg)"

text \<open>Lines 163-164: \<^verbatim>\<open>sum(1 for word in words if word in segment_text)\<close>.\<close>

definition count_hits :: "pystr list \<Rightarrow> pystr \<Rightarrow> nat" where
  "count_hits words text = length (filter (\<lambda>word. py_in word text) words)"

text \<open>
  \<^verbatim>\<open>a / b\<close> on Python ints raises \<^verbatim>\<open>ZeroDivisionError\<close> when \<open>b = 0\<close>.  Otherwise
  the result is a float, the nearest one to the exact quotient; the model keeps the
  exact quotient.
\<close>

definition truediv :: "int \<Rightarrow> int \<Rightarrow> py_error + real" where
  "truediv a b = (if b = 0 then Inl ZeroDivisionError else Inr (real_of_int a / real_of_int b))"

text \<open>Lines 167-171.\<close>

definition sentiment :: "nat \<Rightarrow> nat \<Rightarrow> py_error + real" where
  "sentiment pos_count neg_count =
     (let total_emotional_words = int pos_count + int neg_count
      in if total_emotional_words > 0
         then truediv (int pos_count - int neg_count) total_emotional_words
         else Inr 0)"

text \<open>Lines 163-171, from the text of a segment.\<close>

definition text_score :: "pystr list \<Rightarrow> pystr list \<Rightarrow> pystr \<Rightarrow> py_error + real" where
  "text_score pos neg text = sentiment (count_hits pos text) (count_hits neg text)"

definition segment_score ::
  "ucd \<Rightarrow> pystr list \<Rightarrow> pystr list \<Rightarrow> pystr list \<Rightarrow> py_error + real" where
  "segment_score U pos neg seg = text_score pos neg (segment_text U seg)"

text \<open>\<^verbatim>\<open>str(n)\<close> of a natural number, for the labels \<^verbatim>\<open>f"Segment {i+1}"\<close>.\<close>

fun str_nat :: "nat \<Rightarrow> pystr" where
  "str_nat n = (if n < 10 then [48 + n] else str_nat (n div 10) @ [48 + n mod 10])"

text \<open>
  The loop of lines 158-174 over the indices \<open>is\<close>, appending to \<^verbatim>\<open>segments\<close> and
  \<^verbatim>\<open>sentiment_scores\<close>; an exception in the body ends it.
\<close>

fun score_segments ::
  "ucd \<Rightarrow> pystr list \<Rightarrow> pystr list \<Rightarrow> pystr list \<Rightarrow> nat list \<Rightarrow> pystr list \<times> real list
     \<Rightarrow> py_error + pystr list \<times> real list" where
  "score_segments U pos neg ls [] acc = Inr acc"
| "score_segments U pos neg ls (i # is) acc =
     (case segment_score U pos neg (segment ls i) of
        Inl e \<Rightarrow> Inl e
      | Inr sc \<Rightarrow>
          score_segments U pos neg ls is
            (fst acc @ [ustr ''Segment '' @ str_nat (i + 1)], snd acc @ [sc]))"

text \<open>
  \<^verbatim>\<open>sentiment_analysis\<close>, with the two vocabularies as arguments: the labels and the
  scores of the ten segments.  It reads \<^verbatim>\<open>self.lines\<close> and changes nothing.
\<close>

definition sentiment_analysis ::
  "ucd \<Rightarrow> pystr list \<Rightarrow> pystr list \<Rightarrow> analyzer \<Rightarrow> py_error + pystr list \<times> real list" where
  "sentiment_analysis U pos neg s = score_segments U pos neg (lines s) [0..<10] ([], [])"

text \<open>
  The reading of the scorer in which every occurrence of a vocabulary word counts:
  \<open>spec_occurrences w text\<close> is the number of positions of \<open>text\<close> at which \<open>w\<close> starts.
\<close>

fun spec_occurrences :: "pystr \<Rightarrow> pystr \<Rightarrow> nat" where
  "spec_occurrences needle [] = (if needle = [] then 1 else 0)"
| "spec_occurrences needle (h # hs) =
     (if take (length needle) (h # hs) = needle then 1 else 0) + spec_occurrences needle hs"

definition spec_count_occurrences :: "pystr list \<Rightarrow> pystr \<Rightarrow> nat" where
  "spec_count_occurrences words text = sum_list (map (\<lambda>word. spec_occurrences word text) words)"

definition spec_text_score :: "pystr list \<Rightarrow> pystr list \<Rightarrow> pystr \<Rightarrow> py_error + real" where
  "spec_text_score pos neg text =
     sentiment (spec_count_occurrences pos text) (spec_count_occurrences neg text)"


text \<open>The value lines 167-171 compute from the two counts.\<close>

definition net_polarity :: "nat \<Rightarrow> nat \<Rightarrow> real" where
  "net_polarity p n = (if p + n = 0 then 0 else (real p - real n) / (real p + real n))"

definition segment_value :: "ucd \<Rightarrow> pystr list \<Rightarrow> pystr list \<Rightarrow> pystr list \<Rightarrow> real" where
  "segment_value U pos neg seg =
     net_polarity (count_hits pos (segment_text U seg)) (count_hits neg (segment_text U seg))"

subsection \<open>\<^verbatim>\<open>load_script\<close>\<close>

text \<open>\<^verbatim>\<open>s.split(sep)\<close> for a separator of one character.\<close>

fun split_on :: "codepoint \<Rightarrow> pystr \<Rightarrow> pystr list" where
  "split_on sep [] = [[]]"
| "split_on sep (c # cs) =
     (if c = sep then [] # split_on sep cs
      else (case split_on sep cs of [] \<Rightarrow> [[c]] | w # ws \<Rightarrow> (c # w) # ws))"

text \<open>
  \<^verbatim>\<open>load_script\<close>: \<open>contents\<close> is the decoded text of the file, or \<open>None\<close> when the file
  cannot be read or decoded; then the method returns \<^verbatim>\<open>False\<close> and leaves the analyzer
  as it is.
\<close>

definition load_script :: "pystr option \<Rightarrow> analyzer \<Rightarrow> bool \<times> analyzer" where
  "load_script contents s =
     (case contents of
        None \<Rightarrow> (False, s)
      | Some text \<Rightarrow> (True, s\<lparr>script_text := text, lines := split_on 10 text\<rparr>))"

subsection \<open>\<^verbatim>\<open>analyze_characters\<close> and \<^verbatim>\<open>generate_summary_report\<close>\<close>

text \<open>The comprehension \<^verbatim>\<open>{k: v for k, v in character_count.items() if v > 0}\<close>.\<close>

definition filtered_chars :: "(pystr \<times> nat) list \<Rightarrow> (pystr \<times> nat) list" where
  "filtered_chars character_count = filter (\<lambda>kv. snd kv > 0) character_count"

text \<open>\<^verbatim>\<open>analyze_characters\<close> returns the filtered dict; the chart is not modelled.\<close>

definition analyze_characters ::
  "ucd \<Rightarrow> pystr list \<Rightarrow> analyzer \<Rightarrow> (pystr \<times> nat) list \<times> analyzer" where
  "analyze_characters U roster s =
     (let r = extract_characters U roster s in (filtered_chars (snd (fst r)), snd r))"

text \<open>
  \<^verbatim>\<open>max(d, key=d.get)\<close>: the first key, in the order of the dict, whose value is the
  greatest; \<^verbatim>\<open>ValueError\<close> on the empty dict.
\<close>

fun max_key :: "(pystr \<times> nat) list \<Rightarrow> py_error + pystr" where
  "max_key [] = Inl ValueError"
| "max_key (kv # rest) =
     Inr (fst (fold (\<lambda>kv' best. if snd kv' > snd best then kv' else best) rest kv))"

text \<open>
  What \<^verbatim>\<open>generate_summary_report\<close> prints: the number of lines, the number of
  characters detected, the characters by decreasing count (\<^verbatim>\<open>sorted\<close> is stable) and the
  most active character.
\<close>

record report =
  script_length :: nat
  detected :: nat
  ranking :: "(pystr \<times> nat) list"
  most_active :: pystr

definition generate_summary_report ::
  "ucd \<Rightarrow> pystr list \<Rightarrow> analyzer \<Rightarrow> py_error + report \<times> analyzer" where
  "generate_summary_report U roster s =
     (let r = extract_characters U roster s;
          filtered = filtered_chars (snd (fst r))
      in case max_key filtered of
           Inl e \<Rightarrow> Inl e
         | Inr name \<Rightarrow>
             Inr (\<lparr> script_length = length (lines s), detected = length filtered,
                    ranking = sort_key (\<lambda>kv. - int (snd kv)) filtered, most_active = name \<rparr>,
                  snd r))"

text \<open>
  A dict whose keys are the distinct names \<open>ks\<close>, in that order, with the value \<open>f k\<close>
  under \<open>k\<close>.
\<close>

definition dict_of :: "'k list \<Rightarrow> ('k \<Rightarrow> 'v) \<Rightarrow> ('k \<times> 'v) list" where
  "dict_of ks f = map (\<lambda>k. (k, f k)) ks"

text \<open>The stripped lines of a script that mention a name, in the order of the script.\<close>

definition mention_lines :: "ucd \<Rightarrow> pystr list \<Rightarrow> pystr \<Rightarrow> pystr list" where
  "mention_lines U ls char =
     filter (\<lambda>line. considered line \<and> mentions U char line) (map strip ls)"

text \<open>
  ASCII strings, and the mention lines of a script computed with the ASCII lower-casing
  alone.
\<close>

definition is_ascii :: "pystr \<Rightarrow> bool" where
  "is_ascii s = list_all (\<lambda>c. c < 128) s"

definition ascii_mention_lines :: "pystr list \<Rightarrow> pystr \<Rightarrow> pystr list" where
  "ascii_mention_lines ls char =
     filter (\<lambda>line. considered line \<and> py_in (map ascii_lower char) (map ascii_lower line))
       (map strip ls)"




text \<open>The script of four lines of the examples.\<close>

definition chihiro_haku :: analyzer where
  "chihiro_haku = \<lparr> script_file = ustr ''e.txt'',
      script_text = ustr ''Chihiro sees Haku.\<newline>\<newline>*stage direction*\<newline>Haku is gone.'',
      lines = map ustr [''Chihiro sees Haku.'', '''', ''*stage direction*'', ''Haku is gone.''],
      characters = [] \<rparr>"

text \<open>A line that holds the name \<open>Haku\<close> twice.\<close>

definition haku_twice :: pystr where
  "haku_twice = ustr ''Haku calls: Haku!''"

text \<open>The analyzer after loading an empty file.\<close>

definition empty_script :: analyzer where
  "empty_script =
     snd (load_script (Some [])
            \<lparr> script_file = ustr ''f.txt'', script_text = [], lines = [], characters = [] \<rparr>)"

text \<open>
  The order of the specification: the three substitutions first, then the lower-casing.
\<close>

definition spec_clean_text :: "ucd \<Rightarrow> pystr \<Rightarrow> pystr" where
  "spec_clean_text U text =
     (let text = sub_span 60 62 text;
          text = sub_span 42 42 text;
          text = sub_span 91 93 text
      in lower U text)"

text \<open>
  What the substitutions need from a lower-casing \<open>f\<close> of single characters, for an
  opening character \<open>o\<close> and a closing character \<open>c\<close>: \<open>f\<close> leaves both alone, and maps no
  other character to the empty string or to a string that holds one of them.
  \<open>markup_stable\<close> asks this of a Unicode table for the five characters
  \<^verbatim>\<open>< > * [ ]\<close>; the table of Unicode has the property.
\<close>

definition keeps_pair :: "(codepoint \<Rightarrow> pystr) \<Rightarrow> codepoint \<Rightarrow> codepoint \<Rightarrow> bool" where
  "keeps_pair f o' c \<longleftrightarrow>
     f o' = [o'] \<and> f c = [c] \<and>
     (\<forall>x. f x \<noteq> [] \<and> (o' \<in> set (f x) \<longrightarrow> x = o') \<and> (c \<in> set (f x) \<longrightarrow> x = c))"

definition markup_stable :: "ucd \<Rightarrow> bool" where
  "markup_stable U \<longleftrightarrow>
     (\<forall>x. to_lower_full U x \<noteq> [] \<and>
          (\<forall>d \<in> {60, 62, 42, 91, 93}.
             to_lower_full U d = [d] \<and> (d \<in> set (to_lower_full U x) \<longrightarrow> x = d)))"

subsection \<open>\<^verbatim>\<open>create_character_network\<close>\<close>

text \<open>
  The graph of \<^verbatim>\<open>networkx\<close>.  \<^verbatim>\<open>nx.Graph\<close> keeps a dict from each node to the dict of its
  neighbours, each with the data of the edge; the only datum here is the weight.  Both
  dicts are in insertion order.  The library is not part of the repository; the model
  follows its \<^verbatim>\<open>add_node\<close>, \<^verbatim>\<open>add_edge\<close> and \<^verbatim>\<open>degree\<close>.
\<close>

type_synonym graph = "(pystr \<times> (pystr \<times> int) list) list"

text \<open>\<^verbatim>\<open>G.add_node(n)\<close>: a node that is new gets an empty dict of neighbours.\<close>

definition add_node :: "pystr \<Rightarrow> graph \<Rightarrow> graph" where
  "add_node n G = (case map_of G n of None \<Rightarrow> G @ [(n, [])] | Some _ \<Rightarrow> G)"

text \<open>
  \<^verbatim>\<open>G.add_edge(u, v, weight=w)\<close>: both nodes are added when new, and the weight is stored
  under \<open>v\<close> in the neighbours of \<open>u\<close> and under \<open>u\<close> in those of \<open>v\<close>.
\<close>

definition add_edge :: "pystr \<Rightarrow> pystr \<Rightarrow> int \<Rightarrow> graph \<Rightarrow> graph" where
  "add_edge u v w G =
     (let G = add_node u G;
          G = add_node v G;
          G = AList.map_entry u (AList.update v w) G
      in AList.map_entry v (AList.update u w) G)"

text \<open>\<^verbatim>\<open>G.nodes()\<close>, \<^verbatim>\<open>G.has_edge(u, v)\<close> and the weight \<^verbatim>\<open>G[u][v]['weight']\<close>.\<close>

definition nodes :: "graph \<Rightarrow> pystr list" where
  "nodes G = map fst G"

definition has_edge :: "graph \<Rightarrow> pystr \<Rightarrow> pystr \<Rightarrow> bool" where
  "has_edge G u v = (case map_of G u of None \<Rightarrow> False | Some nbrs \<Rightarrow> map_of nbrs v \<noteq> None)"

definition edge_weight :: "graph \<Rightarrow> pystr \<Rightarrow> pystr \<Rightarrow> int option" where
  "edge_weight G u v = (case map_of G u of None \<Rightarrow> None | Some nbrs \<Rightarrow> map_of nbrs v)"

text \<open>
  \<^verbatim>\<open>G.degree(n)\<close> for a node of the graph: the number of its neighbours, a self-loop
  counting twice.  The source asks the degree of the nodes of the graph only; for
  anything else the model answers \<open>None\<close>.
\<close>

definition degree :: "graph \<Rightarrow> pystr \<Rightarrow> nat option" where
  "degree G n =
     (case map_of G n of
        None \<Rightarrow> None
      | Some nbrs \<Rightarrow> Some (length nbrs + (if map_of nbrs n \<noteq> None then 1 else 0)))"

text \<open>The roster and the relationships written in \<^verbatim>\<open>create_character_network\<close>.\<close>

definition network_characters :: "pystr list" where
  "network_characters = map ustr
     [''Chihiro'', ''Haku'', ''Yobaba'', ''Zeniba'', ''Rin'', ''No Face'', ''Grandpa Kama'']"

definition relationships :: "(pystr \<times> pystr \<times> int) list" where
  "relationships =
     [(ustr ''Chihiro'', ustr ''Haku'', 3),
      (ustr ''Chihiro'', ustr ''Yobaba'', 2),
      (ustr ''Chihiro'', ustr ''Rin'', 2),
      (ustr ''Chihiro'', ustr ''No Face'', 2),
      (ustr ''Chihiro'', ustr ''Grandpa Kama'', 1),
      (ustr ''Haku'', ustr ''Yobaba'', 2),
      (ustr ''Yobaba'', ustr ''Zeniba'', 1),
      (ustr ''Rin'', ustr ''Grandpa Kama'', 1),
      (ustr ''Chihiro'', ustr ''Zeniba'', 1)]"

text \<open>The body of the loop of lines 228-230.\<close>

definition add_relationship :: "pystr list \<Rightarrow> pystr \<times> pystr \<times> int \<Rightarrow> graph \<Rightarrow> graph" where
  "add_relationship roster r G =
     (case r of (char1, char2, weight) \<Rightarrow>
        if char1 \<in> set roster \<and> char2 \<in> set roster then add_edge char1 char2 weight G else G)"

text \<open>
  \<^verbatim>\<open>create_character_network\<close>, with the roster and the relationships as arguments: the
  graph it returns.  The drawing is not modelled.
\<close>

definition create_character_network :: "pystr list \<Rightarrow> (pystr \<times> pystr \<times> int) list \<Rightarrow> graph" where
  "create_character_network roster rels =
     (let G = fold add_node roster []
      in fold (add_relationship roster) rels G)"

text \<open>The edges of a graph as unordered pairs, and those that meet a node.\<close>

definition edge_set :: "graph \<Rightarrow> pystr set set" where
  "edge_set G = {{u, v} | u v. has_edge G u v}"

definition incident_edges :: "graph \<Rightarrow> pystr \<Rightarrow> pystr set set" where
  "incident_edges G n = {e \<in> edge_set G. n \<in> e}"

text \<open>The neighbours of a node, and the graphs whose dicts have no key twice.\<close>

definition nbrs :: "graph \<Rightarrow> pystr \<Rightarrow> pystr set" where
  "nbrs G n = (case map_of G n of None \<Rightarrow> {} | Some al \<Rightarrow> fst ` set al)"

definition wf_graph :: "graph \<Rightarrow> bool" where
  "wf_graph G \<longleftrightarrow> distinct (map fst G) \<and> (\<forall>(n, al) \<in> set G. distinct (map fst al))"

text \<open>The graph of the example: roster \<open>A\<close>, \<open>B\<close>, \<open>C\<close> and two edges.\<close>

definition abc_network :: graph where
  "abc_network =
     create_character_network (map ustr [''A'', ''B'', ''C''])
       [(ustr ''A'', ustr ''B'', 3), (ustr ''B'', ustr ''C'', 1)]"

subsection \<open>The analyses of \<^verbatim>\<open>main\<close>\<close>

text \<open>
  The constants of the source, as a configuration: the roster of
  \<^verbatim>\<open>extract_characters\<close>, the two vocabularies, and the roster and the relationships of
  the graph.
\<close>

record config =
  character_roster :: "pystr list"
  positive_vocabulary :: "pystr list"
  negative_vocabulary :: "pystr list"
  graph_roster :: "pystr list"
  relationship_edges :: "(pystr \<times> pystr \<times> int) list"

definition source_config :: config where
  "source_config =
     \<lparr> character_roster = main_characters, positive_vocabulary = positive_words,
       negative_vocabulary = negative_words, graph_roster = network_characters,
       relationship_edges = relationships \<rparr>"

text \<open>
  The counts, the scores and the graph of one run: the three analyses in the order of
  \<^verbatim>\<open>main\<close>, on one analyzer.  \<^verbatim>\<open>analyze_characters\<close> returns the counts that are not 0
  and leaves all counts in \<^verbatim>\<open>self.characters\<close>.
\<close>

record analysis =
  mention_counts :: "(pystr \<times> nat) list"
  charted_counts :: "(pystr \<times> nat) list"
  sentiment_scores :: "real list"
  relationship_graph :: graph

definition core_analysis :: "ucd \<Rightarrow> config \<Rightarrow> analyzer \<Rightarrow> py_error + analysis \<times> analyzer" where
  "core_analysis U cfg s =
     (let charted = analyze_characters U (character_roster cfg) s;
          s = snd charted
      in case sentiment_analysis U (positive_vocabulary cfg) (negative_vocabulary cfg) s of
           Inl e \<Rightarrow> Inl e
         | Inr labelled \<Rightarrow>
             Inr (\<lparr> mention_counts = characters s, charted_counts = fst charted,
                    sentiment_scores = snd labelled,
                    relationship_graph =
                      create_character_network (graph_roster cfg) (relationship_edges cfg) \<rparr>,
                  s))"

text \<open>Two small scripts, of three and of twelve lines.\<close>

definition script3 :: analyzer where
  "script3 =
     \<lparr> script_file = ustr ''a.txt'', script_text = ustr ''good\<newline>bad bad\<newline>sad'',
       lines = [ustr ''good'', ustr ''bad bad'', ustr ''sad''], characters = [] \<rparr>"

definition script12 :: analyzer where
  "script12 =
     \<lparr> script_file = ustr ''b.txt'', script_text = ustr ''a\<newline>b\<newline>c\<newline>d\<newline>e\<newline>f\<newline>g\<newline>h\<newline>i\<newline>j\<newline>k\<newline>l'',
       lines = map ustr [''a'', ''b'', ''c'', ''d'', ''e'', ''f'', ''g'', ''h'', ''i'', ''j'', ''k'', ''l''],
       characters = [] \<rparr>"

text \<open>
  The script of three lines in an analyzer that differs in the file name and in what an
  earlier call left in \<^verbatim>\<open>self.characters\<close>.
\<close>

definition script3_later :: analyzer where
  "script3_later = script3\<lparr>script_file := ustr ''z.txt'', characters := [(ustr ''Haku'', 7)]\<rparr>"

section \<open>Segments\<close>

lemma segment_start_le_end: "i < 10 \<Longrightarrow> segment_start n i \<le> segment_end n i"
proof (cases "i < 9")
  case True
  then show ?thesis by (simp add: segment_start_def segment_end_def)
next
  case False
  moreover assume "i < 10"
  ultimately have "i = 9" by simp
  then show ?thesis by (simp add: segment_start_def segment_end_def)
qed

lemma segment_end_le:
  assumes "i < 10"
  shows "segment_end n i \<le> n"
proof (cases "i < 9")
  case True
  then have "(i + 1) * (n div 10) \<le> 10 * (n div 10)"
    by (intro mult_le_mono1) simp
  also have "10 * (n div 10) \<le> n" by simp
  finally show ?thesis using True
    by (simp add: segment_start_def segment_end_def add.commute)
next
  case False
  then show ?thesis by (simp add: segment_end_def)
qed

lemma segment_end_eq_next: "i < 9 \<Longrightarrow> segment_end n i = segment_start n (Suc i)"
  by (simp add: segment_start_def segment_end_def)

lemma slice_nth: "b \<le> length xs \<Longrightarrow> slice xs a b = map (\<lambda>k. xs ! k) [a..<b]"
  unfolding slice_def by (rule nth_equalityI) auto

lemma slice_append:
  assumes "a \<le> b" "b \<le> c" "c \<le> length xs"
  shows "slice xs a b @ slice xs b c = slice xs a c"
proof -
  from assms have "[a..<c] = [a..<b] @ [b..<c]"
    by (metis le_Suc_ex upt_add_eq_append)
  with assms show ?thesis by (simp add: slice_nth)
qed

lemma segments_upto:
  "k \<le> 10 \<Longrightarrow> 0 < k \<Longrightarrow>
   concat (map (segment ls) [0..<k]) = slice ls 0 (segment_end (length ls) (k - 1))"
proof (induction k)
  case 0
  then show ?case by simp
next
  case (Suc k)
  show ?case
  proof (cases "k = 0")
    case True
    then show ?thesis by (simp add: segment_def segment_start_def)
  next
    case False
    with Suc have ih:
      "concat (map (segment ls) [0..<k]) = slice ls 0 (segment_end (length ls) (k - 1))"
      by simp
    from False Suc.prems have e: "segment_end (length ls) (k - 1) = segment_start (length ls) k"
      using segment_end_eq_next [of "k - 1" "length ls"] by simp
    have "concat (map (segment ls) [0..<Suc k]) =
            slice ls 0 (segment_start (length ls) k) @ segment ls k"
      using ih e by simp
    also have "\<dots> = slice ls 0 (segment_end (length ls) k)"
      unfolding segment_def using Suc.prems
      by (intro slice_append) (simp_all add: segment_start_le_end segment_end_le)
    finally show ?thesis by simp
  qed
qed

lemma segments_concat: "concat (map (segment ls) [0..<10]) = ls"
  using segments_upto [of 10 ls] by (simp add: segment_end_def slice_def)

lemma segment_nth:
  "i < 10 \<Longrightarrow>
   segment ls i = map (\<lambda>k. ls ! k) [segment_start (length ls) i..<segment_end (length ls) i]"
  unfolding segment_def by (rule slice_nth) (rule segment_end_le)

lemma short_segments: "length ls < 10 \<Longrightarrow> i < 9 \<Longrightarrow> segment ls i = []"
  by (simp add: segment_def segment_start_def segment_end_def slice_def)

lemma short_last: "length ls < 10 \<Longrightarrow> segment ls 9 = ls"
  by (simp add: segment_def segment_start_def segment_end_def slice_def)

section \<open>Scores\<close>

lemma sentiment_value: "sentiment p n = Inr (net_polarity p n)"
  by (simp add: sentiment_def truediv_def Let_def net_polarity_def)

lemma net_polarity_bounds: "- 1 \<le> net_polarity p n \<and> net_polarity p n \<le> 1"
proof (cases "p + n = 0")
  case True
  then show ?thesis by (simp add: net_polarity_def)
next
  case False
  then have "0 < p + n" by simp
  then have "0 < real (p + n)" by (simp only: of_nat_0_less_iff)
  then have "0 < real p + real n" by simp
  then show ?thesis by (simp add: net_polarity_def divide_le_eq le_divide_eq)
qed

lemma segment_score_value: "segment_score U pos neg seg = Inr (segment_value U pos neg seg)"
  by (simp add: segment_score_def text_score_def sentiment_value segment_value_def)

lemma score_segments_value:
  "score_segments U pos neg ls is acc =
     Inr (fst acc @ map (\<lambda>i. ustr ''Segment '' @ str_nat (i + 1)) is,
          snd acc @ map (\<lambda>i. segment_value U pos neg (segment ls i)) is)"
  by (induction "is" arbitrary: acc) (simp_all add: segment_score_value)

lemma sentiment_analysis_value:
  "sentiment_analysis U pos neg s =
     Inr (map (\<lambda>i. ustr ''Segment '' @ str_nat (i + 1)) [0..<10],
          map (\<lambda>i. segment_value U pos neg (segment (lines s) i)) [0..<10])"
  by (simp only: sentiment_analysis_def score_segments_value fst_conv snd_conv append_Nil)

lemma count_hits_empty: "[] \<notin> set ws \<Longrightarrow> count_hits ws [] = 0"
  by (induction ws) (auto simp: count_hits_def)

lemma segment_value_empty:
  "[] \<notin> set pos \<Longrightarrow> [] \<notin> set neg \<Longrightarrow> segment_value U pos neg [] = 0"
  by (simp add: segment_value_def segment_text_def lower_def count_hits_empty net_polarity_def)

lemma py_in_sublist: "py_in w t \<longleftrightarrow> sublist w t"
proof (induction t)
  case Nil
  then show ?case by simp
next
  case (Cons h hs)
  have "take (length w) (h # hs) = w \<longleftrightarrow> prefix w (h # hs)"
    by (metis append_eq_conv_conj prefix_def append_take_drop_id)
  with Cons show ?case by (simp add: sublist_Cons_right)
qed

section \<open>The ten segments (claim C2)\<close>

lemma nth_map_upt10: "i < 10 \<Longrightarrow> map f [0..<10] ! i = f i"
proof -
  assume "i < 10"
  then have "i < length [0..<10]" by simp
  then have "map f [0..<10] ! i = f ([0..<10] ! i)" by (rule nth_map)
  also have "[0..<10] ! i = i" using \<open>i < 10\<close> by simp
  finally show ?thesis .
qed

lemma length_map_upt10: "length (map f [0..<10]) = 10"
  by simp

text \<open>
  Claim C2.  On a script of \<open>n\<close> lines \<^verbatim>\<open>sentiment_analysis\<close> returns ten scores, the score
  of index \<open>i\<close> being that of segment \<open>i\<close>.  With \<open>n div 10\<close> as the segment size, segment
  \<open>i \<le> 8\<close> holds the lines of the indices from \<open>i * (n div 10)\<close> up to, not including,
  \<open>(i + 1) * (n div 10)\<close>, and segment 9 those from \<open>9 * (n div 10)\<close> up to \<open>n\<close>.  Each segment
  ends where the next one starts, the ten segments in order make up the whole script, and
  their lengths add up to \<open>n\<close>.  When \<open>n < 10\<close>, segments 0 to 8 are empty, their score is 0
  (for vocabularies without the empty word, as the ones of the source), and segment 9 is
  the whole script.
\<close>

theorem segments_partition_lines:
  fixes s :: analyzer
  defines "ls \<equiv> lines s" and "n \<equiv> length (lines s)"
  shows
    "(\<exists>labels scores. sentiment_analysis U pos neg s = Inr (labels, scores) \<and> length scores = 10 \<and>
        (\<forall>i<10. segment_score U pos neg (segment ls i) = Inr (scores ! i))) \<and>
     (\<forall>i<9. segment_start n i = i * (n div 10) \<and> segment_end n i = (i + 1) * (n div 10)) \<and>
     segment_start n 9 = 9 * (n div 10) \<and> segment_end n 9 = n \<and>
     (\<forall>i<10. segment_start n i \<le> segment_end n i \<and> segment_end n i \<le> n \<and>
        segment ls i = map (\<lambda>k. ls ! k) [segment_start n i..<segment_end n i]) \<and>
     (\<forall>i<9. segment_end n i = segment_start n (i + 1)) \<and>
     concat (map (segment ls) [0..<10]) = ls \<and>
     sum_list (map (\<lambda>i. length (segment ls i)) [0..<10]) = n \<and>
     (n < 10 \<longrightarrow>
        (\<forall>i<9. segment ls i = [] \<and>
           ([] \<notin> set pos \<and> [] \<notin> set neg \<longrightarrow> segment_score U pos neg (segment ls i) = Inr 0)) \<and>
        segment ls 9 = ls)"
proof -
  have run: "\<exists>labels scores. sentiment_analysis U pos neg s = Inr (labels, scores) \<and> length scores = 10 \<and>
        (\<forall>i<10. segment_score U pos neg (segment ls i) = Inr (scores ! i))"
  proof (intro exI conjI allI impI)
    show "sentiment_analysis U pos neg s =
        Inr (map (\<lambda>i. ustr ''Segment '' @ str_nat (i + 1)) [0..<10],
             map (\<lambda>i. segment_value U pos neg (segment (lines s) i)) [0..<10])"
      by (rule sentiment_analysis_value)
    show "length (map (\<lambda>i. segment_value U pos neg (segment (lines s) i)) [0..<10]) = 10"
      by (rule length_map_upt10)
    fix i :: nat
    assume "i < 10"
    then show "segment_score U pos neg (segment ls i) =
        Inr (map (\<lambda>i. segment_value U pos neg (segment (lines s) i)) [0..<10] ! i)"
      by (simp only: nth_map_upt10 segment_score_value ls_def)
  qed
  have bounds: "\<forall>i<9. segment_start n i = i * (n div 10) \<and> segment_end n i = (i + 1) * (n div 10)"
    by (simp add: segment_start_def segment_end_def)
  have last_start: "segment_start n 9 = 9 * (n div 10)"
    and last_end: "segment_end n 9 = n"
    by (simp_all add: segment_start_def segment_end_def)
  have spans: "\<forall>i<10. segment_start n i \<le> segment_end n i \<and> segment_end n i \<le> n \<and>
        segment ls i = map (\<lambda>k. ls ! k) [segment_start n i..<segment_end n i]"
    unfolding n_def ls_def
    by (simp add: segment_start_le_end segment_end_le segment_nth)
  have contiguous: "\<forall>i<9. segment_end n i = segment_start n (i + 1)"
    by (simp add: segment_end_eq_next)
  have whole: "concat (map (segment ls) [0..<10]) = ls"
    by (rule segments_concat)
  have "sum_list (map (\<lambda>i. length (segment ls i)) [0..<10]) =
      length (concat (map (segment ls) [0..<10]))"
    by (simp only: length_concat map_map comp_def)
  also have "\<dots> = n"
    unfolding n_def ls_def by (simp only: segments_concat)
  finally have total: "sum_list (map (\<lambda>i. length (segment ls i)) [0..<10]) = n" .
  have short: "n < 10 \<longrightarrow>
        (\<forall>i<9. segment ls i = [] \<and>
           ([] \<notin> set pos \<and> [] \<notin> set neg \<longrightarrow> segment_score U pos neg (segment ls i) = Inr 0)) \<and>
        segment ls 9 = ls"
    unfolding n_def ls_def
    by (simp add: short_segments short_last segment_score_value segment_value_empty)
  from run bounds last_start last_end spans contiguous whole total short show ?thesis
    by (intro conjI) assumption+
qed


text \<open>The theorem on a script of three lines and on one of twelve.\<close>

theorem segments_partition_lines_witness:
  "segment (lines script3) 0 = [] \<and>
   segment_score small_ucd positive_words negative_words (segment (lines script3) 0) = Inr 0 \<and>
   segment (lines script3) 9 = lines script3 \<and>
   concat (map (segment (lines script12)) [0..<10]) = lines script12 \<and>
   segment (lines script12) 1 = [lines script12 ! 1] \<and>
   segment (lines script12) 9 = [lines script12 ! 9, lines script12 ! 10, lines script12 ! 11]"
proof -
  have n3: "length (lines script3) < 10" and n12: "length (lines script12) = 12"
    by (simp_all add: script3_def script12_def)
  have v: "[] \<notin> set positive_words \<and> [] \<notin> set negative_words"
    by (simp add: positive_words_def negative_words_def ustr_def)
  have b1: "[segment_start 12 1..<segment_end 12 1] = [1]"
    and b9: "[segment_start 12 9..<segment_end 12 9] = [9, 10, 11]"
    by (simp_all add: segment_start_def segment_end_def upt_rec)
  have z: "(0::nat) < 9" "(1::nat) < 10" "(9::nat) < 10"
    by simp_all
  note a = segments_partition_lines [of small_ucd positive_words negative_words script3]
  note b = segments_partition_lines [of small_ucd positive_words negative_words script12,
      unfolded n12]
  from a n3 v z have "segment (lines script3) 0 = [] \<and>
      segment_score small_ucd positive_words negative_words (segment (lines script3) 0) = Inr 0 \<and>
      segment (lines script3) 9 = lines script3"
    by blast
  moreover from b z have "concat (map (segment (lines script12)) [0..<10]) = lines script12 \<and>
      segment (lines script12) 1 =
        map (\<lambda>k. lines script12 ! k) [segment_start 12 1..<segment_end 12 1] \<and>
      segment (lines script12) 9 =
        map (\<lambda>k. lines script12 ! k) [segment_start 12 9..<segment_end 12 9]"
    by blast
  then have "concat (map (segment (lines script12)) [0..<10]) = lines script12 \<and>
      segment (lines script12) 1 = [lines script12 ! 1] \<and>
      segment (lines script12) 9 = [lines script12 ! 9, lines script12 ! 10, lines script12 ! 11]"
    unfolding b1 b9 by (simp only: list.map)
  ultimately show ?thesis by blast
qed

section \<open>The range of the scores (claim C4)\<close>

text \<open>
  Claim C4.  For every script and every pair of vocabularies \<^verbatim>\<open>sentiment_analysis\<close>
  returns, without raising, ten scores; each is the score of its segment and lies
  between \<open>-1\<close> and \<open>1\<close>, and it is 0 when the text of the segment contains no word of
  either vocabulary.  In particular the division never sees a zero denominator.
\<close>

theorem sentiment_scores_bounded:
  "\<exists>labels scores. sentiment_analysis U pos neg s = Inr (labels, scores) \<and> length scores = 10 \<and>
     (\<forall>i<10. - 1 \<le> scores ! i \<and> scores ! i \<le> 1 \<and>
        segment_score U pos neg (segment (lines s) i) = Inr (scores ! i) \<and>
        (count_hits pos (segment_text U (segment (lines s) i)) = 0 \<and>
         count_hits neg (segment_text U (segment (lines s) i)) = 0 \<longrightarrow> scores ! i = 0))"
proof (intro exI conjI allI impI)
  let ?scores = "map (\<lambda>i. segment_value U pos neg (segment (lines s) i)) [0..<10]"
  show "sentiment_analysis U pos neg s =
      Inr (map (\<lambda>i. ustr ''Segment '' @ str_nat (i + 1)) [0..<10], ?scores)"
    by (rule sentiment_analysis_value)
  show "length ?scores = 10"
    by (rule length_map_upt10)
  fix i :: nat
  assume i: "i < 10"
  then have at: "?scores ! i = segment_value U pos neg (segment (lines s) i)"
    by (rule nth_map_upt10)
  have "- 1 \<le> segment_value U pos neg (segment (lines s) i) \<and>
      segment_value U pos neg (segment (lines s) i) \<le> 1"
    unfolding segment_value_def by (rule net_polarity_bounds)
  then show "- 1 \<le> ?scores ! i" and "?scores ! i \<le> 1"
    by (simp_all only: at)
  show "segment_score U pos neg (segment (lines s) i) = Inr (?scores ! i)"
    by (simp only: at segment_score_value)
  assume "count_hits pos (segment_text U (segment (lines s) i)) = 0 \<and>
      count_hits neg (segment_text U (segment (lines s) i)) = 0"
  then have "segment_value U pos neg (segment (lines s) i) = 0"
    by (simp add: segment_value_def net_polarity_def)
  then show "?scores ! i = 0"
    by (simp only: at)
qed

text \<open>The theorem on the script of three lines: the first and the last score.\<close>

theorem sentiment_scores_bounded_witness:
  "\<exists>labels scores.
     sentiment_analysis small_ucd positive_words negative_words script3 = Inr (labels, scores) \<and>
     length scores = 10 \<and> - 1 \<le> scores ! 9 \<and> scores ! 9 \<le> 1 \<and> scores ! 0 = 0"
proof -
  have z: "(0::nat) < 10" "(9::nat) < 10"
    by simp_all
  have "segment (lines script3) 0 = []"
    by (simp add: script3_def segment_def segment_start_def segment_end_def slice_def)
  then have h: "count_hits positive_words (segment_text small_ucd (segment (lines script3) 0)) = 0"
      "count_hits negative_words (segment_text small_ucd (segment (lines script3) 0)) = 0"
    by (simp_all add: segment_text_def lower_def count_hits_empty positive_words_def
        negative_words_def ustr_def)
  from sentiment_scores_bounded [of small_ucd positive_words negative_words script3] z h
  show ?thesis by blast
qed

section \<open>The score of a segment (claim C3)\<close>

lemma spec_occurrences_pos: "0 < spec_occurrences w t \<longleftrightarrow> py_in w t"
  by (induction t) auto

lemma hit_le_occurrences: "(if py_in w t then 1 else 0) \<le> spec_occurrences w t"
  using spec_occurrences_pos [of w t] by (cases "py_in w t") simp_all

lemma count_hits_sum: "count_hits ws t = sum_list (map (\<lambda>w. if py_in w t then 1 else 0) ws)"
  by (induction ws) (simp_all add: count_hits_def)

lemma count_hits_le_occurrences: "count_hits ws t \<le> spec_count_occurrences ws t"
  unfolding count_hits_sum spec_count_occurrences_def
  by (rule sum_list_mono) (rule hit_le_occurrences)

lemma count_hits_le_length: "count_hits ws t \<le> length ws"
  by (simp add: count_hits_def)

lemma count_hits_eq_occurrences:
  assumes "\<forall>w \<in> set ws. spec_occurrences w t \<le> 1"
  shows "count_hits ws t = spec_count_occurrences ws t"
proof -
  have "(if py_in w t then 1 else 0) = spec_occurrences w t" if "w \<in> set ws" for w
    using that assms spec_occurrences_pos [of w t] by (cases "py_in w t") force+
  then show ?thesis
    unfolding count_hits_sum spec_count_occurrences_def
    by (intro arg_cong [where f = sum_list] map_cong refl) 
qed

text \<open>
  Claim C3, as the code has it.  The text of a segment is its lines joined by one space,
  in lower case.  \<open>pos_count\<close> is the number of positive vocabulary words that occur in
  that text as a substring, \<open>neg_count\<close> the number of negative ones: a word counts once,
  however often it occurs, so neither count exceeds the size of its vocabulary.  The
  score is \<open>(pos_count - neg_count) / (pos_count + neg_count)\<close>, and 0 when both counts are
  0.  Where no vocabulary word occurs more than once in the text, this is the score that
  counts occurrences.  For the words \<open>good\<close> and \<open>bad\<close> and the text
  \<open>this is good and bad\<close> the score is 0.
\<close>

theorem segment_score_counts_words:
  "segment_score U pos neg seg =
     Inr (let text = lower U (join (ustr '' '') seg);
              pos_count = length (filter (\<lambda>word. sublist word text) pos);
              neg_count = length (filter (\<lambda>word. sublist word text) neg)
          in if pos_count + neg_count = 0 then 0
             else (real pos_count - real neg_count) / (real pos_count + real neg_count)) \<and>
   count_hits pos (segment_text U seg) \<le> length pos \<and>
   count_hits neg (segment_text U seg) \<le> length neg \<and>
   ((\<forall>word \<in> set pos \<union> set neg. spec_occurrences word (segment_text U seg) \<le> 1) \<longrightarrow>
      segment_score U pos neg seg = spec_text_score pos neg (segment_text U seg)) \<and>
   text_score [ustr ''good''] [ustr ''bad''] (ustr ''this is good and bad'') = Inr 0"
proof (intro conjI impI)
  show "segment_score U pos neg seg =
     Inr (let text = lower U (join (ustr '' '') seg);
              pos_count = length (filter (\<lambda>word. sublist word text) pos);
              neg_count = length (filter (\<lambda>word. sublist word text) neg)
          in if pos_count + neg_count = 0 then 0
             else (real pos_count - real neg_count) / (real pos_count + real neg_count))"
    by (simp add: segment_score_value segment_value_def net_polarity_def count_hits_def
        segment_text_def py_in_sublist Let_def)
  show "count_hits pos (segment_text U seg) \<le> length pos"
    and "count_hits neg (segment_text U seg) \<le> length neg"
    by (rule count_hits_le_length)+
  show "text_score [ustr ''good''] [ustr ''bad''] (ustr ''this is good and bad'') = Inr 0"
    by code_simp
  assume "\<forall>word \<in> set pos \<union> set neg. spec_occurrences word (segment_text U seg) \<le> 1"
  then have "count_hits pos (segment_text U seg) = spec_count_occurrences pos (segment_text U seg)"
    and "count_hits neg (segment_text U seg) = spec_count_occurrences neg (segment_text U seg)"
    by (simp_all add: count_hits_eq_occurrences)
  then show "segment_score U pos neg seg = spec_text_score pos neg (segment_text U seg)"
    by (simp add: segment_score_def text_score_def spec_text_score_def)
qed

text \<open>The theorem on a segment of two lines whose text is that of the example.\<close>

theorem segment_score_counts_words_witness:
  "segment_text small_ucd [ustr ''This is GOOD'', ustr ''and bad''] = ustr ''this is good and bad'' \<and>
   spec_occurrences (ustr ''good'') (ustr ''this is good and bad'') \<le> 1 \<and>
   spec_occurrences (ustr ''bad'') (ustr ''this is good and bad'') \<le> 1 \<and>
   segment_score small_ucd [ustr ''good''] [ustr ''bad''] [ustr ''This is GOOD'', ustr ''and bad''] =
     spec_text_score [ustr ''good''] [ustr ''bad''] (ustr ''this is good and bad'') \<and>
   segment_score small_ucd [ustr ''good''] [ustr ''bad''] [ustr ''This is GOOD'', ustr ''and bad''] =
     Inr 0"
proof -
  have t: "segment_text small_ucd [ustr ''This is GOOD'', ustr ''and bad''] =
      ustr ''this is good and bad''"
    by code_simp
  have occ: "spec_occurrences (ustr ''good'') (ustr ''this is good and bad'') \<le> 1"
      "spec_occurrences (ustr ''bad'') (ustr ''this is good and bad'') \<le> 1"
    by code_simp+
  then have all: "\<forall>word \<in> set [ustr ''good''] \<union> set [ustr ''bad''].
      spec_occurrences word (segment_text small_ucd [ustr ''This is GOOD'', ustr ''and bad'']) \<le> 1"
    unfolding t by simp
  have v: "spec_text_score [ustr ''good''] [ustr ''bad''] (ustr ''this is good and bad'') = Inr 0"
    by code_simp
  from segment_score_counts_words [of small_ucd "[ustr ''good'']" "[ustr ''bad'']"
      "[ustr ''This is GOOD'', ustr ''and bad'']"] all
  have "segment_score small_ucd [ustr ''good''] [ustr ''bad''] [ustr ''This is GOOD'', ustr ''and bad''] =
      spec_text_score [ustr ''good''] [ustr ''bad''] (ustr ''this is good and bad'')"
    unfolding t by blast
  with t occ v show ?thesis by simp
qed

text \<open>
  Claim C3 as stated counts the occurrences of each word.  On the text \<open>good good bad\<close>
  that count gives \<open>(2 - 1) / (2 + 1)\<close>, and the code gives 0.
\<close>

theorem occurrence_count_counterexample:
  "text_score [ustr ''good''] [ustr ''bad''] (ustr ''good good bad'') = Inr 0 \<and>
   spec_text_score [ustr ''good''] [ustr ''bad''] (ustr ''good good bad'') = Inr (1 / 3)"
  by code_simp

section \<open>The mention extractor\<close>

text \<open>
  For a roster of distinct names both dicts of \<^verbatim>\<open>extract_characters\<close> keep the roster as
  their keys, in its order; the loops only change the values.
\<close>

lemma update_fresh: "k \<notin> fst ` set d \<Longrightarrow> AList.update k v d = d @ [(k, v)]"
  by (induction d) auto

lemma dict_init_fold:
  "distinct ks \<Longrightarrow> set ks \<inter> fst ` set d = {} \<Longrightarrow>
   fold (\<lambda>k d. AList.update k v d) ks d = d @ map (\<lambda>k. (k, v)) ks"
proof (induction ks arbitrary: d)
  case Nil
  then show ?case by simp
next
  case (Cons k ks)
  from Cons.prems have fresh: "k \<notin> fst ` set d" by auto
  have "set ks \<inter> fst ` set (d @ [(k, v)]) = {}"
    using Cons.prems by auto
  with Cons show ?case by (simp add: update_fresh [OF fresh])
qed

lemma dict_init_distinct: "distinct ks \<Longrightarrow> dict_init ks v = dict_of ks (\<lambda>_. v)"
  by (simp add: dict_init_def dict_of_def dict_init_fold)

lemma map_entry_dict_of:
  "distinct ks \<Longrightarrow> AList.map_entry c g (dict_of ks f) = dict_of ks (f(c := g (f c)))"
  by (induction ks) (auto simp: dict_of_def)

lemma dict_of_cong: "(\<And>k. k \<in> set ks \<Longrightarrow> f k = g k) \<Longrightarrow> dict_of ks f = dict_of ks g"
  by (simp add: dict_of_def)

lemma map_of_dict_of: "map_of (dict_of ks f) k = (if k \<in> set ks then Some (f k) else None)"
  by (induction ks) (auto simp: dict_of_def)

lemma fold_record_mention:
  "distinct ks \<Longrightarrow> distinct cs \<Longrightarrow>
   fold (record_mention U line) cs (dict_of ks L, dict_of ks N) =
     (dict_of ks (\<lambda>k. if k \<in> set cs \<and> mentions U k line then L k @ [line] else L k),
      dict_of ks (\<lambda>k. if k \<in> set cs \<and> mentions U k line then Suc (N k) else N k))"
proof (induction cs arbitrary: L N)
  case Nil
  then show ?case by simp
next
  case (Cons c cs)
  show ?case
  proof (cases "mentions U c line")
    case True
    have "fold (record_mention U line) (c # cs) (dict_of ks L, dict_of ks N) =
        fold (record_mention U line) cs
          (dict_of ks (L(c := L c @ [line])), dict_of ks (N(c := Suc (N c))))"
      using True Cons.prems by (simp add: record_mention_def map_entry_dict_of)
    also have "\<dots> =
        (dict_of ks (\<lambda>k. if k \<in> set cs \<and> mentions U k line then (L(c := L c @ [line])) k @ [line]
                         else (L(c := L c @ [line])) k),
         dict_of ks (\<lambda>k. if k \<in> set cs \<and> mentions U k line then Suc ((N(c := Suc (N c))) k)
                         else (N(c := Suc (N c))) k))"
      using Cons.prems by (intro Cons.IH) simp_all
    also have "\<dots> =
        (dict_of ks (\<lambda>k. if k \<in> set (c # cs) \<and> mentions U k line then L k @ [line] else L k),
         dict_of ks (\<lambda>k. if k \<in> set (c # cs) \<and> mentions U k line then Suc (N k) else N k))"
      using True Cons.prems by (auto intro!: dict_of_cong)
    finally show ?thesis .
  next
    case False
    have "fold (record_mention U line) (c # cs) (dict_of ks L, dict_of ks N) =
        fold (record_mention U line) cs (dict_of ks L, dict_of ks N)"
      using False by (simp add: record_mention_def)
    also have "\<dots> =
        (dict_of ks (\<lambda>k. if k \<in> set cs \<and> mentions U k line then L k @ [line] else L k),
         dict_of ks (\<lambda>k. if k \<in> set cs \<and> mentions U k line then Suc (N k) else N k))"
      using Cons.prems by (intro Cons.IH) simp_all
    also have "\<dots> =
        (dict_of ks (\<lambda>k. if k \<in> set (c # cs) \<and> mentions U k line then L k @ [line] else L k),
         dict_of ks (\<lambda>k. if k \<in> set (c # cs) \<and> mentions U k line then Suc (N k) else N k))"
      using False by (auto intro!: dict_of_cong)
    finally show ?thesis .
  qed
qed

lemma scan_line_dict_of:
  assumes "distinct ks"
  shows "scan_line U ks raw (dict_of ks L, dict_of ks N) =
     (dict_of ks (\<lambda>k. L k @ mention_lines U [raw] k),
      dict_of ks (\<lambda>k. N k + length (mention_lines U [raw] k)))"
proof (cases "considered (strip raw)")
  case True
  then have "scan_line U ks raw (dict_of ks L, dict_of ks N) =
      fold (record_mention U (strip raw)) ks (dict_of ks L, dict_of ks N)"
    by (simp add: scan_line_def)
  also have "\<dots> =
     (dict_of ks (\<lambda>k. if k \<in> set ks \<and> mentions U k (strip raw) then L k @ [strip raw] else L k),
      dict_of ks (\<lambda>k. if k \<in> set ks \<and> mentions U k (strip raw) then Suc (N k) else N k))"
    using assms by (rule fold_record_mention [OF assms])
  also have "\<dots> = (dict_of ks (\<lambda>k. L k @ mention_lines U [raw] k),
      dict_of ks (\<lambda>k. N k + length (mention_lines U [raw] k)))"
    using True by (auto intro!: dict_of_cong simp: mention_lines_def)
  finally show ?thesis .
next
  case False
  then show ?thesis
    by (simp add: scan_line_def mention_lines_def)
qed

lemma mention_lines_append:
  "mention_lines U (ls @ ms) k = mention_lines U ls k @ mention_lines U ms k"
  by (simp add: mention_lines_def)

lemma fold_scan_line:
  assumes "distinct ks"
  shows "fold (scan_line U ks) ls (dict_of ks L, dict_of ks N) =
     (dict_of ks (\<lambda>k. L k @ mention_lines U ls k),
      dict_of ks (\<lambda>k. N k + length (mention_lines U ls k)))"
proof (induction ls arbitrary: L N)
  case Nil
  then show ?case by (simp add: mention_lines_def)
next
  case (Cons raw ls)
  have split: "mention_lines U (raw # ls) k = mention_lines U [raw] k @ mention_lines U ls k" for k
    using mention_lines_append [of U "[raw]" ls k] by simp
  show ?case
    by (simp add: scan_line_dict_of [OF assms] Cons.IH split add.assoc)
qed

lemma extract_characters_distinct:
  assumes "distinct roster"
  shows "extract_characters U roster s =
     ((dict_of roster (mention_lines U (lines s)),
       dict_of roster (\<lambda>k. length (mention_lines U (lines s) k))),
      s\<lparr>characters := dict_of roster (\<lambda>k. length (mention_lines U (lines s) k))\<rparr>)"
  by (simp add: extract_characters_def Let_def dict_init_distinct [OF assms]
      fold_scan_line [OF assms])

subsection \<open>Lower-casing without the capital sigma\<close>

lemma do_lower_no_sigma: "931 \<notin> set s \<Longrightarrow> do_lower U left s = concat (map (to_lower_full U) s)"
  by (induction s arbitrary: left) auto

lemma lower_no_sigma: "931 \<notin> set s \<Longrightarrow> lower U s = concat (map (to_lower_full U) s)"
  by (simp add: lower_def do_lower_no_sigma)

lemma lower_ascii:
  assumes "ascii_ucd U" "is_ascii s"
  shows "lower U s = map ascii_lower s"
proof -
  from assms(2) have small: "\<forall>c \<in> set s. c < 128"
    by (simp add: is_ascii_def list_all_iff)
  then have "931 \<notin> set s" by auto
  then have "lower U s = concat (map (to_lower_full U) s)"
    by (rule lower_no_sigma)
  also have "map (to_lower_full U) s = map (\<lambda>c. [ascii_lower c]) s"
    using small assms(1) by (intro map_cong refl) (simp add: ascii_ucd_def)
  also have "concat (map (\<lambda>c. [ascii_lower c]) s) = map ascii_lower s"
    by (induction s) simp_all
  finally show ?thesis .
qed

lemma set_strip: "set (strip s) \<subseteq> set s"
proof -
  have "set (strip s) \<subseteq> set (dropWhile is_space s)"
    unfolding strip_def using set_dropWhileD [of _ is_space "rev (dropWhile is_space s)"]
    by auto
  also have "\<dots> \<subseteq> set s"
    using set_dropWhileD [of _ is_space s] by auto
  finally show ?thesis .
qed

lemma is_ascii_strip: "is_ascii s \<Longrightarrow> is_ascii (strip s)"
  using set_strip [of s] by (auto simp: is_ascii_def list_all_iff)

lemma mention_lines_ascii:
  assumes "ascii_ucd U" "is_ascii char" "list_all is_ascii ls"
  shows "mention_lines U ls char = ascii_mention_lines ls char"
proof -
  have "mentions U char line = py_in (map ascii_lower char) (map ascii_lower line)"
    if "line \<in> set (map strip ls)" for line
  proof -
    from that assms(3) have "is_ascii line"
      by (auto simp: list_all_iff is_ascii_strip)
    with assms(1,2) show ?thesis
      by (simp add: mentions_def lower_ascii)
  qed
  then show ?thesis
    unfolding mention_lines_def ascii_mention_lines_def
    by (intro filter_cong refl) simp
qed




section \<open>Which lines count as mentions (claim C5)\<close>







section \<open>Counts and recorded lines (claim C7)\<close>

text \<open>The mention lines of the script of four lines, for a table that is right on ASCII.\<close>

lemma chihiro_haku_lines:
  "ascii_ucd U \<Longrightarrow>
   mention_lines U (lines chihiro_haku) (ustr ''Chihiro'') = [ustr ''Chihiro sees Haku.''] \<and>
   mention_lines U (lines chihiro_haku) (ustr ''Haku'') = [ustr ''Chihiro sees Haku.'', ustr ''Haku is gone.'']"
proof -
  assume U: "ascii_ucd U"
  have a: "is_ascii (ustr ''Chihiro'')" "is_ascii (ustr ''Haku'')" "list_all is_ascii (lines chihiro_haku)"
    by (simp_all add: is_ascii_def chihiro_haku_def ustr_def)
  have "ascii_mention_lines (lines chihiro_haku) (ustr ''Chihiro'') = [ustr ''Chihiro sees Haku.'']"
    by (simp add: chihiro_haku_def ascii_mention_lines_def strip_def is_space_def considered_def
        startswith_def ascii_lower_def ustr_def)
  moreover have "ascii_mention_lines (lines chihiro_haku) (ustr ''Haku'') =
      [ustr ''Chihiro sees Haku.'', ustr ''Haku is gone.'']"
    by (simp add: chihiro_haku_def ascii_mention_lines_def strip_def is_space_def considered_def
        startswith_def ascii_lower_def ustr_def)
  ultimately show ?thesis
    using U a by (simp add: mention_lines_ascii)
qed

text \<open>
  Claim C7.  For a roster of distinct names and every name of the roster,
  \<^verbatim>\<open>extract_characters\<close> returns a list of lines and a count for the name, the count is
  the length of the list (also in \<^verbatim>\<open>self.characters\<close>), and the list is a subsequence
  of the stripped lines of the script: the recorded lines keep the order of the script.
\<close>

theorem mention_record_invariant:
  assumes "distinct roster" and "char \<in> set roster"
  shows
    "\<exists>ls. map_of (fst (fst (extract_characters U roster s))) char = Some ls \<and>
          map_of (snd (fst (extract_characters U roster s))) char = Some (length ls) \<and>
          map_of (characters (snd (extract_characters U roster s))) char = Some (length ls) \<and>
          subseq ls (map strip (lines s))"
proof (intro exI conjI)
  show "map_of (fst (fst (extract_characters U roster s))) char = Some (mention_lines U (lines s) char)"
    and "map_of (snd (fst (extract_characters U roster s))) char =
      Some (length (mention_lines U (lines s) char))"
    and "map_of (characters (snd (extract_characters U roster s))) char =
      Some (length (mention_lines U (lines s) char))"
    using assms by (simp_all add: extract_characters_distinct map_of_dict_of)
  show "subseq (mention_lines U (lines s) char) (map strip (lines s))"
    unfolding mention_lines_def by (rule subseq_filter_left)
qed

text \<open>The theorem on the script of four lines, for the name \<open>Haku\<close>.\<close>

theorem mention_record_invariant_witness:
  "map_of (fst (fst (extract_characters small_ucd [ustr ''Chihiro'', ustr ''Haku''] chihiro_haku)))
      (ustr ''Haku'') = Some [ustr ''Chihiro sees Haku.'', ustr ''Haku is gone.''] \<and>
   map_of (snd (fst (extract_characters small_ucd [ustr ''Chihiro'', ustr ''Haku''] chihiro_haku)))
      (ustr ''Haku'') = Some 2 \<and>
   map_of (characters (snd (extract_characters small_ucd [ustr ''Chihiro'', ustr ''Haku''] chihiro_haku)))
      (ustr ''Haku'') = Some 2 \<and>
   subseq [ustr ''Chihiro sees Haku.'', ustr ''Haku is gone.''] (map strip (lines chihiro_haku))"
proof -
  have d: "distinct [ustr ''Chihiro'', ustr ''Haku'']"
    and m: "ustr ''Haku'' \<in> set [ustr ''Chihiro'', ustr ''Haku'']"
    by (simp_all add: ustr_def)
  have U: "ascii_ucd small_ucd"
    by (simp add: ascii_ucd_def small_ucd_def)
  have "map_of (fst (fst (extract_characters small_ucd [ustr ''Chihiro'', ustr ''Haku''] chihiro_haku)))
      (ustr ''Haku'') = Some [ustr ''Chihiro sees Haku.'', ustr ''Haku is gone.'']"
    using chihiro_haku_lines [OF U] d by (simp add: extract_characters_distinct map_of_dict_of)
  with mention_record_invariant [OF d m, of small_ucd chihiro_haku]
  show ?thesis by auto
qed

section \<open>One increment per line and name (claim C6)\<close>

lemma count_dict_value:
  "distinct roster \<Longrightarrow> char \<in> set roster \<Longrightarrow>
   map_of (snd (fst (extract_characters U roster s))) char =
     Some (length (mention_lines U (lines s) char))"
  by (simp add: extract_characters_distinct map_of_dict_of)

text \<open>
  Claim C6.  For a roster of distinct names, one more line at the end of the script raises
  the count of a name of the roster by one when the stripped line is considered and
  mentions the name, and leaves it as it is otherwise: never by more than one, however
  often the name occurs in the line.  With a Unicode table that is right on ASCII, a line
  that holds \<open>Haku\<close> twice gives \<open>Haku\<close> the count 1, the line \<open>Chihiro sees Haku.\<close> gives
  both \<open>Chihiro\<close> and \<open>Haku\<close> the count 1, and the script of four lines of the example gives
  \<open>Chihiro\<close> the count 1 and \<open>Haku\<close> the count 2.
\<close>

theorem one_increment_per_line:
  "(distinct roster \<and> char \<in> set roster \<longrightarrow>
      (\<exists>n. map_of (snd (fst (extract_characters U roster s))) char = Some n \<and>
           map_of (snd (fst (extract_characters U roster (s\<lparr>lines := lines s @ [raw]\<rparr>)))) char =
             Some (if considered (strip raw) \<and> mentions U char (strip raw) then n + 1 else n))) \<and>
   (ascii_ucd U \<longrightarrow>
      snd (fst (extract_characters U [ustr ''Haku''] (s\<lparr>lines := [haku_twice]\<rparr>))) =
        [(ustr ''Haku'', 1)] \<and>
      snd (fst (extract_characters U [ustr ''Chihiro'', ustr ''Haku'']
                  (s\<lparr>lines := [ustr ''Chihiro sees Haku.'']\<rparr>))) =
        [(ustr ''Chihiro'', 1), (ustr ''Haku'', 1)] \<and>
      snd (fst (extract_characters U [ustr ''Chihiro'', ustr ''Haku'']
                  (s\<lparr>lines := map ustr [''Chihiro sees Haku.'', '''', ''*stage direction*'',
                                         ''Haku is gone.'']\<rparr>))) =
        [(ustr ''Chihiro'', 1), (ustr ''Haku'', 2)])"
proof (intro conjI impI)
  assume "distinct roster \<and> char \<in> set roster"
  then have d: "distinct roster" and m: "char \<in> set roster" by simp_all
  have "mention_lines U (lines s @ [raw]) char =
      mention_lines U (lines s) char @
        (if considered (strip raw) \<and> mentions U char (strip raw) then [strip raw] else [])"
    by (simp add: mention_lines_def)
  then have "length (mention_lines U (lines s @ [raw]) char) =
      (if considered (strip raw) \<and> mentions U char (strip raw)
       then length (mention_lines U (lines s) char) + 1 else length (mention_lines U (lines s) char))"
    by simp
  then show "\<exists>n. map_of (snd (fst (extract_characters U roster s))) char = Some n \<and>
           map_of (snd (fst (extract_characters U roster (s\<lparr>lines := lines s @ [raw]\<rparr>)))) char =
             Some (if considered (strip raw) \<and> mentions U char (strip raw) then n + 1 else n)"
    by (simp add: count_dict_value [OF d m])
next
  assume U: "ascii_ucd U"
  have "ascii_mention_lines [haku_twice] (ustr ''Haku'') = [haku_twice]"
    by (simp add: haku_twice_def ascii_mention_lines_def strip_def is_space_def considered_def
        startswith_def ascii_lower_def ustr_def)
  moreover have "is_ascii (ustr ''Haku'')" "list_all is_ascii [haku_twice]"
    by (simp_all add: is_ascii_def haku_twice_def ustr_def)
  ultimately have "mention_lines U [haku_twice] (ustr ''Haku'') = [haku_twice]"
    using U by (simp add: mention_lines_ascii)
  then show "snd (fst (extract_characters U [ustr ''Haku''] (s\<lparr>lines := [haku_twice]\<rparr>))) =
        [(ustr ''Haku'', 1)]"
    by (simp add: extract_characters_distinct dict_of_def)
next
  assume U: "ascii_ucd U"
  have d: "distinct [ustr ''Chihiro'', ustr ''Haku'']"
    by (simp add: ustr_def)
  have a: "is_ascii (ustr ''Chihiro'')" "is_ascii (ustr ''Haku'')"
      "list_all is_ascii [ustr ''Chihiro sees Haku.'']"
    by (simp_all add: is_ascii_def ustr_def)
  have "ascii_mention_lines [ustr ''Chihiro sees Haku.''] (ustr ''Chihiro'') = [ustr ''Chihiro sees Haku.'']"
    and "ascii_mention_lines [ustr ''Chihiro sees Haku.''] (ustr ''Haku'') = [ustr ''Chihiro sees Haku.'']"
    by (simp_all add: ascii_mention_lines_def strip_def is_space_def considered_def
        startswith_def ascii_lower_def ustr_def)
  with U a have "mention_lines U [ustr ''Chihiro sees Haku.''] (ustr ''Chihiro'') = [ustr ''Chihiro sees Haku.'']"
    and "mention_lines U [ustr ''Chihiro sees Haku.''] (ustr ''Haku'') = [ustr ''Chihiro sees Haku.'']"
    by (simp_all add: mention_lines_ascii)
  then show "snd (fst (extract_characters U [ustr ''Chihiro'', ustr ''Haku'']
                  (s\<lparr>lines := [ustr ''Chihiro sees Haku.'']\<rparr>))) =
        [(ustr ''Chihiro'', 1), (ustr ''Haku'', 1)]"
    by (simp add: extract_characters_distinct [OF d] dict_of_def)
next
  assume U: "ascii_ucd U"
  have d: "distinct [ustr ''Chihiro'', ustr ''Haku'']"
    by (simp add: ustr_def)
  have l: "map ustr [''Chihiro sees Haku.'', '''', ''*stage direction*'', ''Haku is gone.''] =
      lines chihiro_haku"
    by (simp add: chihiro_haku_def)
  show "snd (fst (extract_characters U [ustr ''Chihiro'', ustr ''Haku'']
                  (s\<lparr>lines := map ustr [''Chihiro sees Haku.'', '''', ''*stage direction*'',
                                         ''Haku is gone.'']\<rparr>))) =
        [(ustr ''Chihiro'', 1), (ustr ''Haku'', 2)]"
    unfolding l using chihiro_haku_lines [OF U]
    by (simp add: extract_characters_distinct [OF d] dict_of_def)
qed

text \<open>
  The theorem on the script of four lines followed by the line that holds \<open>Haku\<close> twice:
  the count of \<open>Haku\<close> goes from 2 to 3.
\<close>

theorem one_increment_per_line_witness:
  "considered (strip haku_twice) \<and> mentions small_ucd (ustr ''Haku'') (strip haku_twice) \<and>
   map_of (snd (fst (extract_characters small_ucd main_characters chihiro_haku))) (ustr ''Haku'') = Some 2 \<and>
   map_of (snd (fst (extract_characters small_ucd main_characters
                       (chihiro_haku\<lparr>lines := lines chihiro_haku @ [haku_twice]\<rparr>)))) (ustr ''Haku'') = Some 3 \<and>
   snd (fst (extract_characters small_ucd [ustr ''Chihiro'', ustr ''Haku'']
               (chihiro_haku\<lparr>lines := map ustr [''Chihiro sees Haku.'', '''', ''*stage direction*'',
                                                 ''Haku is gone.'']\<rparr>))) =
     [(ustr ''Chihiro'', 1), (ustr ''Haku'', 2)]"
proof -
  have d: "distinct main_characters" and m: "ustr ''Haku'' \<in> set main_characters"
    by (simp_all add: main_characters_def ustr_def)
  have U: "ascii_ucd small_ucd"
    by (simp add: ascii_ucd_def small_ucd_def)
  have c: "considered (strip haku_twice)"
    by (simp add: haku_twice_def strip_def is_space_def considered_def startswith_def ustr_def)
  have "is_ascii (ustr ''Haku'')" "is_ascii (strip haku_twice)"
    by (simp_all add: is_ascii_def haku_twice_def strip_def is_space_def ustr_def)
  then have "mentions small_ucd (ustr ''Haku'') (strip haku_twice) =
      py_in (map ascii_lower (ustr ''Haku'')) (map ascii_lower (strip haku_twice))"
    using U by (simp add: mentions_def lower_ascii)
  also have "\<dots>"
    by (simp add: haku_twice_def strip_def is_space_def ascii_lower_def ustr_def)
  finally have h: "mentions small_ucd (ustr ''Haku'') (strip haku_twice)" .
  have n: "map_of (snd (fst (extract_characters small_ucd main_characters chihiro_haku))) (ustr ''Haku'') = Some 2"
    using chihiro_haku_lines [OF U] by (simp add: count_dict_value [OF d m])
  note t = one_increment_per_line [of main_characters "ustr ''Haku''" small_ucd chihiro_haku haku_twice]
  from t d m c h n U show ?thesis by auto
qed

section \<open>The report on a script without mentions (claim C1)\<close>

lemma empty_script_lines: "lines empty_script = [[]]" "script_text empty_script = []"
  by (simp_all add: empty_script_def load_script_def)

lemma mention_lines_empty_line: "mention_lines U [[]] char = []"
  by (simp add: mention_lines_def strip_def considered_def)

lemma filtered_chars_zero: "filtered_chars (dict_of ks (\<lambda>_. 0)) = []"
  by (induction ks) (simp_all add: filtered_chars_def dict_of_def)

text \<open>
  Claim C1 asks that the report completes when no character of the roster is mentioned.
  On the empty file every count is 0, the filtered dict is empty, and
  \<^verbatim>\<open>max(filtered_chars, key=filtered_chars.get)\<close> raises \<^verbatim>\<open>ValueError\<close>: the report does
  not complete.
\<close>

theorem report_fails_without_mentions:
  "generate_summary_report U main_characters empty_script = Inl ValueError"
proof -
  have d: "distinct main_characters"
    by (simp add: main_characters_def ustr_def)
  have "snd (fst (extract_characters U main_characters empty_script)) =
      dict_of main_characters (\<lambda>_. 0)"
    by (simp add: extract_characters_distinct [OF d] empty_script_lines mention_lines_empty_line)
  then show ?thesis
    by (simp add: generate_summary_report_def Let_def filtered_chars_zero)
qed

section \<open>The order of lower-casing and span removal (claim C9)\<close>

lemma find_close_append: "c \<notin> set u \<Longrightarrow> find_close c (u @ s) = find_close c s"
  by (induction u) auto

lemma find_close_subset: "find_close c s = Some r \<Longrightarrow> set r \<subseteq> set s"
  by (induction s) (auto split: if_splits)

lemma sub_span_subset: "set (sub_span o' c s) \<subseteq> set s"
proof (induction o' c s rule: sub_span.induct)
  case (3 o' c x y ys)
  show ?case
  proof (cases "x = o' \<and> y \<noteq> c")
    case True
    show ?thesis
    proof (cases "find_close c ys")
      case None
      with True 3(1) show ?thesis by auto
    next
      case (Some r)
      with True 3(2) [of r] find_close_subset [OF Some] show ?thesis by auto
    qed
  next
    case False
    with 3(3) show ?thesis by auto
  qed
qed simp_all

lemma sub_span_prefix: "o' \<notin> set u \<Longrightarrow> sub_span o' c (u @ s) = u @ sub_span o' c s"
proof (induction u)
  case Nil
  then show ?case by simp
next
  case (Cons a u)
  then have a: "a \<noteq> o'" and ih: "sub_span o' c (u @ s) = u @ sub_span o' c s"
    by simp_all
  show ?case
  proof (cases "u @ s")
    case Nil
    then show ?thesis by simp
  next
    case (Cons y ys)
    then have "sub_span o' c (a # u @ s) = a # sub_span o' c (u @ s)"
      using a by simp
    with ih show ?thesis by simp
  qed
qed


lemma find_close_concat_map:
  assumes "keeps_pair f o' c"
  shows "find_close c (concat (map f s)) = map_option (\<lambda>r. concat (map f r)) (find_close c s)"
proof (induction s)
  case Nil
  then show ?case by simp
next
  case (Cons x xs)
  show ?case
  proof (cases "x = c")
    case True
    with assms have "f x = [c]" by (simp add: keeps_pair_def)
    with True show ?thesis by simp
  next
    case False
    with assms have "c \<notin> set (f x)" by (auto simp: keeps_pair_def)
    with False Cons show ?thesis by (simp add: find_close_append)
  qed
qed

lemma sub_span_concat_map:
  "keeps_pair f o' c \<Longrightarrow> sub_span o' c (concat (map f s)) = concat (map f (sub_span o' c s))"
proof (induction o' c s rule: sub_span.induct)
  case (1 o' c)
  then show ?case by simp
next
  case (2 o' c x)
  show ?case
  proof (cases "x = o'")
    case True
    with 2 have "f x = [o']" by (simp add: keeps_pair_def)
    then show ?thesis by simp
  next
    case False
    with 2 have "o' \<notin> set (f x)" by (auto simp: keeps_pair_def)
    then have "sub_span o' c (f x @ []) = f x @ sub_span o' c []"
      by (rule sub_span_prefix)
    then show ?thesis by simp
  qed
next
  case (3 o' c x y ys)
  from 3(4) have kp: "keeps_pair f o' c" .
  show ?case
  proof (cases "x = o' \<and> y \<noteq> c")
    case True
    from kp have fo: "f o' = [o']" by (simp add: keeps_pair_def)
    with True have fx: "f x = [o']" by simp
    from kp True have "f y \<noteq> []" and nc: "c \<notin> set (f y)" by (auto simp: keeps_pair_def)
    then obtain a as where fy: "f y = a # as" by (cases "f y") auto
    with nc have a: "a \<noteq> c" and as: "c \<notin> set as" by auto
    have fc: "find_close c (as @ concat (map f ys)) =
        map_option (\<lambda>r. concat (map f r)) (find_close c ys)"
      using as by (simp add: find_close_append find_close_concat_map [OF kp])
    have whole: "concat (map f (x # y # ys)) = o' # a # (as @ concat (map f ys))"
      by (simp add: fx fy)
    show ?thesis
    proof (cases "find_close c ys")
      case None
      then have "sub_span o' c (concat (map f (x # y # ys))) =
          o' # sub_span o' c (concat (map f (y # ys)))"
        unfolding whole using a fc by (simp add: fy)
      also have "\<dots> = o' # concat (map f (sub_span o' c (y # ys)))"
        using 3(1) [OF True None kp] by simp
      also have "\<dots> = concat (map f (sub_span o' c (x # y # ys)))"
        using True None by (simp add: fo)
      finally show ?thesis .
    next
      case (Some r)
      then have "sub_span o' c (concat (map f (x # y # ys))) = sub_span o' c (concat (map f r))"
        unfolding whole using a fc by simp
      also have "\<dots> = concat (map f (sub_span o' c r))"
        using 3(2) [OF True Some kp] by simp
      also have "\<dots> = concat (map f (sub_span o' c (x # y # ys)))"
        using True Some by simp
      finally show ?thesis .
    qed
  next
    case False
    have ih: "sub_span o' c (concat (map f (y # ys))) = concat (map f (sub_span o' c (y # ys)))"
      using 3(3) [OF False kp] .
    have step: "sub_span o' c (f x @ concat (map f (y # ys))) =
        f x @ sub_span o' c (concat (map f (y # ys)))"
    proof (cases "x = o'")
      case True
      with False have yc: "y = c" by simp
      from kp True have fx: "f x = [o']" by (simp add: keeps_pair_def)
      from kp yc have fy: "f y = [c]" by (simp add: keeps_pair_def)
      show ?thesis by (simp add: fx fy)
    next
      case False
      with kp have "o' \<notin> set (f x)" by (auto simp: keeps_pair_def)
      then show ?thesis by (rule sub_span_prefix)
    qed
    have "sub_span o' c (concat (map f (x # y # ys))) =
        f x @ concat (map f (sub_span o' c (y # ys)))"
      using step ih by simp
    also have "\<dots> = concat (map f (sub_span o' c (x # y # ys)))"
      using False by auto
    finally show ?thesis .
  qed
qed


lemma markup_stable_pairs:
  assumes "markup_stable U"
  shows "keeps_pair (to_lower_full U) 60 62" and "keeps_pair (to_lower_full U) 42 42"
    and "keeps_pair (to_lower_full U) 91 93"
  using assms unfolding markup_stable_def keeps_pair_def by auto

lemma markup_stable_small: "markup_stable small_ucd"
  unfolding markup_stable_def small_ucd_def ascii_lower_def by auto

text \<open>
  Claim C9, as the code has it.  The cleaned text is the lower-case form of the raw text
  with the three kinds of spans removed, in this order.  For a table that leaves the
  markup characters alone and a text without the capital sigma U+03A3, this is the text
  of the specification: spans removed first, lower-casing second.
\<close>

theorem clean_text_lower_first:
  "clean_text U text = sub_span 91 93 (sub_span 42 42 (sub_span 60 62 (lower U text))) \<and>
   (markup_stable U \<and> 931 \<notin> set text \<longrightarrow> clean_text U text = spec_clean_text U text)"
proof (intro conjI impI)
  show "clean_text U text = sub_span 91 93 (sub_span 42 42 (sub_span 60 62 (lower U text)))"
    by (simp add: clean_text_def)
next
  assume "markup_stable U \<and> 931 \<notin> set text"
  then have st: "markup_stable U" and ns: "931 \<notin> set text" by simp_all
  note p = markup_stable_pairs [OF st]
  let ?f = "to_lower_full U"
  let ?r = "sub_span 91 93 (sub_span 42 42 (sub_span 60 62 text))"
  have "set ?r \<subseteq> set text"
    using sub_span_subset [of 91 93 "sub_span 42 42 (sub_span 60 62 text)"]
      sub_span_subset [of 42 42 "sub_span 60 62 text"] sub_span_subset [of 60 62 "text"]
    by blast
  with ns have nr: "931 \<notin> set ?r" by blast
  have "clean_text U text =
      sub_span 91 93 (sub_span 42 42 (sub_span 60 62 (concat (map ?f text))))"
    by (simp add: clean_text_def lower_no_sigma [OF ns])
  also have "\<dots> = concat (map ?f ?r)"
    by (simp only: sub_span_concat_map [OF p(1)] sub_span_concat_map [OF p(2)]
        sub_span_concat_map [OF p(3)])
  also have "\<dots> = lower U ?r"
    by (simp only: lower_no_sigma [OF nr])
  also have "\<dots> = spec_clean_text U text"
    by (simp add: spec_clean_text_def)
  finally show "clean_text U text = spec_clean_text U text" .
qed

text \<open>The theorem on a text with the three kinds of spans.\<close>

theorem clean_text_lower_first_witness:
  "markup_stable small_ucd \<and> 931 \<notin> set (ustr ''Haku <b>WALKS *x* [d]'') \<and>
   clean_text small_ucd (ustr ''Haku <b>WALKS *x* [d]'') = ustr ''haku walks  '' \<and>
   spec_clean_text small_ucd (ustr ''Haku <b>WALKS *x* [d]'') = ustr ''haku walks  ''"
proof -
  have n: "931 \<notin> set (ustr ''Haku <b>WALKS *x* [d]'')"
    by (simp add: ustr_def)
  have v: "spec_clean_text small_ucd (ustr ''Haku <b>WALKS *x* [d]'') = ustr ''haku walks  ''"
    by (simp add: spec_clean_text_def lower_def small_ucd_def ascii_lower_def ustr_def)
  from clean_text_lower_first [of small_ucd "ustr ''Haku <b>WALKS *x* [d]''"] markup_stable_small n
  have "clean_text small_ucd (ustr ''Haku <b>WALKS *x* [d]'') =
      spec_clean_text small_ucd (ustr ''Haku <b>WALKS *x* [d]'')"
    by blast
  with markup_stable_small n v show ?thesis by simp
qed

text \<open>
  Claim C9 is stated for every text.  In the text \<open>A\<Sigma><b>C\<close> the sigma is followed by
  \<^verbatim>\<open><\<close> when the code lower-cases it, so it becomes the final sigma U+03C2; with the span
  removed first it is followed by \<open>C\<close> and becomes U+03C3.
\<close>

theorem clean_text_order_counterexample:
  "clean_text small_ucd [65, 931, 60, 98, 62, 67] = [97, 962, 99] \<and>
   spec_clean_text small_ucd [65, 931, 60, 98, 62, 67] = [97, 963, 99]"
  by (simp add: clean_text_def spec_clean_text_def lower_def handle_capital_sigma_def
      small_ucd_def ascii_lower_def)

section \<open>The relationship graph (claim C8)\<close>

lemma map_of_Some_key: "map_of G k = Some x \<Longrightarrow> k \<in> fst ` set G"
  by (metis map_of_eq_None_iff option.distinct(1))

lemma map_of_key_defined: "map_of al v \<noteq> None \<longleftrightarrow> v \<in> fst ` set al"
  by (simp add: map_of_eq_None_iff)

lemma has_edge_nbrs: "has_edge G u v \<longleftrightarrow> v \<in> nbrs G u"
proof (cases "map_of G u")
  case None
  then show ?thesis by (simp only: has_edge_def nbrs_def option.case) simp
next
  case (Some al)
  then show ?thesis by (simp only: has_edge_def nbrs_def option.case map_of_key_defined)
qed

lemma map_of_add_node:
  "map_of (add_node n G) m =
     (if m = n \<and> n \<notin> fst ` set G then Some [] else map_of G m)"
proof (cases "map_of G n")
  case None
  then have a: "add_node n G = G @ [(n, [])]" by (simp only: add_node_def option.case)
  from None have fresh: "n \<notin> fst ` set G" by (simp add: map_of_eq_None_iff)
  show ?thesis
  proof (cases "map_of G m")
    case None
    then show ?thesis using fresh by (simp add: a map_add_def)
  next
    case (Some x)
    with fresh map_of_Some_key [OF Some] have "m \<noteq> n" by auto
    with Some show ?thesis by (simp add: a map_add_def)
  qed
next
  case (Some al)
  then have "add_node n G = G" by (simp only: add_node_def option.case)
  with map_of_Some_key [OF Some] show ?thesis by simp
qed

lemma keys_add_node: "fst ` set (add_node n G) = insert n (fst ` set G)"
  by (auto simp: add_node_def map_of_eq_None_iff split: option.splits dest: map_of_SomeD
      intro: rev_image_eqI)

lemma nbrs_add_node: "nbrs (add_node n G) m = nbrs G m"
proof (cases "m = n \<and> n \<notin> fst ` set G")
  case True
  then have "map_of G m = None" by (simp add: map_of_eq_None_iff)
  with True show ?thesis by (simp add: nbrs_def map_of_add_node)
next
  case False
  then have "map_of (add_node n G) m = map_of G m" by (simp only: map_of_add_node if_False)
  then show ?thesis by (simp only: nbrs_def)
qed

lemma wf_add_node: "wf_graph G \<Longrightarrow> wf_graph (add_node n G)"
  by (auto simp: wf_graph_def add_node_def map_of_eq_None_iff split: option.splits)


lemma wf_inner: "wf_graph G \<Longrightarrow> map_of G n = Some al \<Longrightarrow> distinct (map fst al)"
  by (auto simp: wf_graph_def dest: map_of_SomeD)

lemma keys_map_entry: "map fst (AList.map_entry k f G) = map fst G"
  by (induction G) auto

lemma wf_map_entry_update:
  assumes "wf_graph G"
  shows "wf_graph (AList.map_entry k (AList.update v w) G)"
proof -
  have "\<forall>(n, al) \<in> set G. distinct (map fst al) \<Longrightarrow>
      \<forall>(n, al) \<in> set (AList.map_entry k (AList.update v w) G). distinct (map fst al)"
    by (induction G) (auto simp: distinct_update)
  with assms show ?thesis
    by (simp add: wf_graph_def keys_map_entry)
qed

lemma nbrs_map_entry_update:
  "nbrs (AList.map_entry k (AList.update v w) G) m =
     (if m = k \<and> k \<in> fst ` set G then insert v (nbrs G m) else nbrs G m)"
proof (cases "map_of G k")
  case None
  then have "k \<notin> fst ` set G" by (simp add: map_of_eq_None_iff)
  moreover from None have "map_of (AList.map_entry k (AList.update v w) G) m = map_of G m"
    by (simp add: map_of_map_entry)
  ultimately show ?thesis by (simp only: nbrs_def) simp
next
  case (Some al)
  have k: "k \<in> fst ` set G" by (rule map_of_Some_key [OF Some])
  show ?thesis
  proof (cases "m = k")
    case True
    with Some have "map_of (AList.map_entry k (AList.update v w) G) m = Some (AList.update v w al)"
      by (simp add: map_of_map_entry)
    with True Some k show ?thesis by (simp add: nbrs_def dom_update)
  next
    case False
    then have "map_of (AList.map_entry k (AList.update v w) G) m = map_of G m"
      by (simp add: map_of_map_entry)
    with False show ?thesis by (simp add: nbrs_def)
  qed
qed

lemma wf_add_edge: "wf_graph G \<Longrightarrow> wf_graph (add_edge u v w G)"
  by (simp add: add_edge_def Let_def wf_map_entry_update wf_add_node)

lemma keys_add_edge: "fst ` set (add_edge u v w G) = insert u (insert v (fst ` set G))"
  by (auto simp: add_edge_def Let_def dom_map_entry keys_add_node)

lemma nbrs_add_edge:
  "nbrs (add_edge u v w G) m =
     nbrs G m \<union> (if m = u then {v} else {}) \<union> (if m = v then {u} else {})"
  by (auto simp: add_edge_def Let_def nbrs_map_entry_update nbrs_add_node dom_map_entry
      keys_add_node)


lemma add_relationship_simps:
  "add_relationship roster (a, b, w) G =
     (if a \<in> set roster \<and> b \<in> set roster then add_edge a b w G else G)"
  by (simp add: add_relationship_def)

lemma wf_fold_relationships:
  "wf_graph G \<Longrightarrow> wf_graph (fold (add_relationship roster) rels G)"
  by (induction rels arbitrary: G) (auto simp: add_relationship_simps wf_add_edge)

lemma keys_fold_relationships:
  "set roster \<subseteq> fst ` set G \<Longrightarrow>
   fst ` set (fold (add_relationship roster) rels G) = fst ` set G"
proof (induction rels arbitrary: G)
  case Nil
  then show ?case by simp
next
  case (Cons r rels)
  obtain a b w where r: "r = (a, b, w)" by (cases r)
  have "fst ` set (add_relationship roster r G) = fst ` set G"
    using Cons.prems by (auto simp: r add_relationship_simps keys_add_edge)
  with Cons show ?case by simp
qed

lemma nbrs_fold_relationships:
  "nbrs (fold (add_relationship roster) rels G) m =
     nbrs G m \<union> {v. m \<in> set roster \<and> v \<in> set roster \<and>
                    (\<exists>w. (m, v, w) \<in> set rels \<or> (v, m, w) \<in> set rels)}"
proof (induction rels arbitrary: G)
  case Nil
  then show ?case by simp
next
  case (Cons r rels)
  obtain a b w where r: "r = (a, b, w)" by (cases r)
  have "nbrs (add_relationship roster r G) m =
      nbrs G m \<union> {v. m \<in> set roster \<and> v \<in> set roster \<and> ((m, v) = (a, b) \<or> (v, m) = (a, b))}"
    by (auto simp: r add_relationship_simps nbrs_add_edge)
  then show ?case
    unfolding fold_Cons comp_def Cons.IH r by auto
qed

lemma wf_fold_add_node: "wf_graph G \<Longrightarrow> wf_graph (fold add_node roster G)"
  by (induction roster arbitrary: G) (simp_all add: wf_add_node)

lemma keys_fold_add_node: "fst ` set (fold add_node roster G) = set roster \<union> fst ` set G"
  by (induction roster arbitrary: G) (auto simp: keys_add_node)

lemma nbrs_fold_add_node: "nbrs (fold add_node roster G) m = nbrs G m"
  by (induction roster arbitrary: G) (simp_all add: nbrs_add_node)

lemma wf_empty: "wf_graph []"
  by (simp add: wf_graph_def)

lemma nbrs_empty: "nbrs [] m = {}"
  by (simp add: nbrs_def)

lemma wf_network: "wf_graph (create_character_network roster rels)"
  unfolding create_character_network_def Let_def
  by (intro wf_fold_relationships wf_fold_add_node wf_empty)

lemma keys_network: "fst ` set (create_character_network roster rels) = set roster"
  by (simp add: create_character_network_def keys_fold_relationships keys_fold_add_node)

lemma nbrs_network:
  "nbrs (create_character_network roster rels) m =
     {v. m \<in> set roster \<and> v \<in> set roster \<and>
         (\<exists>w. (m, v, w) \<in> set rels \<or> (v, m, w) \<in> set rels)}"
  by (simp only: create_character_network_def Let_def nbrs_fold_relationships
      nbrs_fold_add_node nbrs_empty Un_empty_left)

lemma degree_nbrs:
  assumes "wf_graph G" "n \<in> fst ` set G"
  shows "degree G n = Some (card (nbrs G n) + (if n \<in> nbrs G n then 1 else 0))"
proof -
  from assms(2) obtain al where al: "map_of G n = Some al"
    by (metis map_of_eq_None_iff not_None_eq)
  with assms(1) have "distinct (map fst al)" by (rule wf_inner)
  then have "card (fst ` set al) = length al"
    by (metis distinct_card length_map set_map)
  moreover have "degree G n = Some (length al + (if n \<in> fst ` set al then 1 else 0))"
    by (simp only: degree_def al option.case map_of_key_defined)
  moreover have "nbrs G n = fst ` set al"
    by (simp only: nbrs_def al option.case)
  ultimately show ?thesis by simp
qed

lemma incident_edges_image:
  assumes "\<And>u v. has_edge G u v \<Longrightarrow> has_edge G v u"
  shows "incident_edges G n = (\<lambda>m. {n, m}) ` nbrs G n"
proof (intro set_eqI iffI)
  fix e
  assume "e \<in> incident_edges G n"
  then obtain u v where e: "e = {u, v}" and uv: "has_edge G u v" and n: "n \<in> e"
    by (auto simp: incident_edges_def edge_set_def)
  from n e consider "n = u" | "n = v" by auto
  then show "e \<in> (\<lambda>m. {n, m}) ` nbrs G n"
  proof cases
    case 1
    with e uv show ?thesis by (auto simp: has_edge_nbrs)
  next
    case 2
    from assms [OF uv] have "u \<in> nbrs G n" by (simp add: 2 has_edge_nbrs)
    moreover have "e = {n, u}" using e 2 by auto
    ultimately show ?thesis by blast
  qed
next
  fix e
  assume "e \<in> (\<lambda>m. {n, m}) ` nbrs G n"
  then obtain m where "e = {n, m}" "has_edge G n m"
    by (auto simp: has_edge_nbrs)
  then show "e \<in> incident_edges G n"
    by (auto simp: incident_edges_def edge_set_def)
qed

lemma card_incident_edges:
  assumes "\<And>u v. has_edge G u v \<Longrightarrow> has_edge G v u"
  shows "card (incident_edges G n) = card (nbrs G n)"
proof -
  have "inj_on (\<lambda>m. {n, m}) (nbrs G n)"
    by (rule inj_onI) (auto simp: doubleton_eq_iff)
  then show ?thesis
    by (simp add: incident_edges_image [OF assms] card_image)
qed


lemma has_edge_network:
  "has_edge (create_character_network roster rels) a b \<longleftrightarrow>
     a \<in> set roster \<and> b \<in> set roster \<and> (\<exists>w. (a, b, w) \<in> set rels \<or> (b, a, w) \<in> set rels)"
  by (simp add: has_edge_nbrs nbrs_network)

lemma has_edge_network_sym:
  "has_edge (create_character_network roster rels) a b \<Longrightarrow>
   has_edge (create_character_network roster rels) b a"
  unfolding has_edge_network by blast

lemma abc_network_value:
  "abc_network =
     [(ustr ''A'', [(ustr ''B'', 3)]), (ustr ''B'', [(ustr ''A'', 3), (ustr ''C'', 1)]),
      (ustr ''C'', [(ustr ''B'', 1)])]"
  by (simp add: abc_network_def create_character_network_def add_relationship_def add_edge_def
      add_node_def ustr_def)

text \<open>
  Claim C8.  The nodes of the graph are the roster.  Two names are joined by an edge,
  in either direction, exactly when both are in the roster and some authored triple
  names the two.  When no authored triple joins a name to itself (the graph of the
  data model has no self-loops), the degree of every roster name is the number of
  edges that meet it.  For the roster \<open>A\<close>, \<open>B\<close>, \<open>C\<close> and the edges \<open>(A, B, 3)\<close>,
  \<open>(B, C, 1)\<close> the degrees are 1, 2 and 1.
\<close>

theorem network_edges_and_degrees:
  "set (nodes (create_character_network roster rels)) = set roster \<and>
   (has_edge (create_character_network roster rels) a b \<longleftrightarrow>
      a \<in> set roster \<and> b \<in> set roster \<and> (\<exists>w. (a, b, w) \<in> set rels \<or> (b, a, w) \<in> set rels)) \<and>
   (has_edge (create_character_network roster rels) a b \<longleftrightarrow>
      has_edge (create_character_network roster rels) b a) \<and>
   (n \<in> set roster \<and> (\<forall>r \<in> set rels. fst r \<noteq> fst (snd r)) \<longrightarrow>
      degree (create_character_network roster rels) n =
        Some (card (incident_edges (create_character_network roster rels) n))) \<and>
   degree abc_network (ustr ''A'') = Some 1 \<and>
   degree abc_network (ustr ''B'') = Some 2 \<and>
   degree abc_network (ustr ''C'') = Some 1"
proof (intro conjI impI)
  let ?G = "create_character_network roster rels"
  show "set (nodes ?G) = set roster"
    using keys_network [of roster rels] by (simp add: nodes_def)
  show "has_edge ?G a b \<longleftrightarrow>
      a \<in> set roster \<and> b \<in> set roster \<and> (\<exists>w. (a, b, w) \<in> set rels \<or> (b, a, w) \<in> set rels)"
    by (rule has_edge_network)
  show "has_edge ?G a b \<longleftrightarrow> has_edge ?G b a"
    using has_edge_network_sym by blast
  show "degree abc_network (ustr ''A'') = Some 1"
    and "degree abc_network (ustr ''B'') = Some 2"
    and "degree abc_network (ustr ''C'') = Some 1"
    by (simp_all add: abc_network_value degree_def ustr_def)
  assume "n \<in> set roster \<and> (\<forall>r \<in> set rels. fst r \<noteq> fst (snd r))"
  then have n: "n \<in> set roster" and loopfree: "\<forall>r \<in> set rels. fst r \<noteq> fst (snd r)"
    by simp_all
  from loopfree have "n \<notin> nbrs ?G n"
    by (force simp: nbrs_network)
  moreover have "degree ?G n = Some (card (nbrs ?G n) + (if n \<in> nbrs ?G n then 1 else 0))"
    using n by (intro degree_nbrs wf_network) (simp add: keys_network)
  moreover have "card (incident_edges ?G n) = card (nbrs ?G n)"
    by (rule card_incident_edges) (rule has_edge_network_sym)
  ultimately show "degree ?G n = Some (card (incident_edges ?G n))"
    by simp
qed

text \<open>The degrees of the graph of the source, in the order of its roster.\<close>

lemma source_network_value:
  "map (degree (create_character_network network_characters relationships)) network_characters =
     [Some 6, Some 2, Some 3, Some 2, Some 2, Some 1, Some 2]"
  by code_simp

text \<open>The theorem on the graph of the source, for \<open>Chihiro\<close> and \<open>Haku\<close>.\<close>

theorem network_edges_and_degrees_witness:
  "ustr ''Chihiro'' \<in> set network_characters \<and>
   degree (create_character_network network_characters relationships) (ustr ''Chihiro'') = Some 6 \<and>
   card (incident_edges (create_character_network network_characters relationships) (ustr ''Chihiro'')) = 6 \<and>
   has_edge (create_character_network network_characters relationships) (ustr ''Haku'') (ustr ''Chihiro'')"
proof -
  let ?G = "create_character_network network_characters relationships"
  have n: "ustr ''Chihiro'' \<in> set network_characters" and h: "ustr ''Haku'' \<in> set network_characters"
    by (simp_all add: network_characters_def)
  have l: "\<forall>r \<in> set relationships. fst r \<noteq> fst (snd r)"
    by (simp add: relationships_def ustr_def)
  have r: "(ustr ''Chihiro'', ustr ''Haku'', 3) \<in> set relationships"
    by (simp add: relationships_def)
  have d: "degree ?G (ustr ''Chihiro'') = Some 6"
    using source_network_value by (simp add: network_characters_def)
  note t = network_edges_and_degrees [of network_characters relationships "ustr ''Haku''"
      "ustr ''Chihiro''" "ustr ''Chihiro''"]
  from t n l d have "card (incident_edges ?G (ustr ''Chihiro'')) = 6"
    by simp
  moreover from t n h r have "has_edge ?G (ustr ''Haku'') (ustr ''Chihiro'')"
    by blast
  ultimately show ?thesis using n d by blast
qed

section \<open>Two runs on the same script (claim C10)\<close>

lemma extract_characters_lines:
  "lines a = lines b \<Longrightarrow> fst (extract_characters U roster a) = fst (extract_characters U roster b)"
  by (simp add: extract_characters_def Let_def)

lemma extract_characters_keeps:
  "lines (snd (extract_characters U roster a)) = lines a \<and>
   script_text (snd (extract_characters U roster a)) = script_text a \<and>
   script_file (snd (extract_characters U roster a)) = script_file a \<and>
   characters (snd (extract_characters U roster a)) = snd (fst (extract_characters U roster a))"
  by (simp add: extract_characters_def Let_def)

lemma sentiment_analysis_lines:
  "lines a = lines b \<Longrightarrow> sentiment_analysis U pos neg a = sentiment_analysis U pos neg b"
  by (simp add: sentiment_analysis_def)

lemma analyze_characters_value:
  "analyze_characters U roster a =
     (filtered_chars (snd (fst (extract_characters U roster a))),
      snd (extract_characters U roster a))"
  by (simp add: analyze_characters_def Let_def)

lemma core_analysis_value:
  "core_analysis U cfg a =
     Inr (\<lparr> mention_counts = snd (fst (extract_characters U (character_roster cfg) a)),
            charted_counts = filtered_chars (snd (fst (extract_characters U (character_roster cfg) a))),
            sentiment_scores =
              map (\<lambda>i. segment_value U (positive_vocabulary cfg) (negative_vocabulary cfg)
                          (segment (lines a) i)) [0..<10],
            relationship_graph =
              create_character_network (graph_roster cfg) (relationship_edges cfg) \<rparr>,
          snd (extract_characters U (character_roster cfg) a))"
  by (simp only: core_analysis_def Let_def analyze_characters_value sentiment_analysis_value
      extract_characters_keeps sum.case fst_conv snd_conv)

text \<open>
  Claim C10.  The analyses always return.  A second run on the analyzer that the first
  run leaves behind returns the same counts, scores and graph.  Two analyzers that hold
  the same lines return the same counts, scores and graph under the same configuration,
  whatever else they hold (a file name, the counts of an earlier call); so do any two
  analyzers after loading the same text.
\<close>

theorem core_analysis_deterministic:
  "(\<exists>res. core_analysis U cfg a = Inr (res, snd (extract_characters U (character_roster cfg) a)) \<and>
      core_analysis U cfg (snd (extract_characters U (character_roster cfg) a)) =
        Inr (res, snd (extract_characters U (character_roster cfg) a))) \<and>
   (lines a = lines b \<longrightarrow>
      map_sum id fst (core_analysis U cfg a) = map_sum id fst (core_analysis U cfg b)) \<and>
   map_sum id fst (core_analysis U cfg (snd (load_script (Some text) a))) =
     map_sum id fst (core_analysis U cfg (snd (load_script (Some text) b)))"
proof (intro conjI impI)
  let ?a' = "snd (extract_characters U (character_roster cfg) a)"
  have l: "lines ?a' = lines a"
    by (simp add: extract_characters_keeps)
  have e: "extract_characters U (character_roster cfg) ?a' = extract_characters U (character_roster cfg) a"
    by (simp add: extract_characters_def Let_def)
  show "\<exists>res. core_analysis U cfg a = Inr (res, ?a') \<and> core_analysis U cfg ?a' = Inr (res, ?a')"
    by (simp only: core_analysis_value e l) blast
  have "lines (snd (load_script (Some text) a)) = lines (snd (load_script (Some text) b))"
    by (simp add: load_script_def)
  then show "map_sum id fst (core_analysis U cfg (snd (load_script (Some text) a))) =
      map_sum id fst (core_analysis U cfg (snd (load_script (Some text) b)))"
    by (simp add: core_analysis_value
        extract_characters_lines [of "snd (load_script (Some text) a)" "snd (load_script (Some text) b)"])
  assume "lines a = lines b"
  then show "map_sum id fst (core_analysis U cfg a) = map_sum id fst (core_analysis U cfg b)"
    by (simp add: core_analysis_value extract_characters_lines [of a b])
qed

text \<open>
  The theorem on the script of three lines, held by two analyzers that differ in
  \<^verbatim>\<open>self.characters\<close>.
\<close>

theorem core_analysis_deterministic_witness:
  "lines script3 = lines script3_later \<and> characters script3 \<noteq> characters script3_later \<and>
   map_sum id fst (core_analysis small_ucd source_config script3) =
     map_sum id fst (core_analysis small_ucd source_config script3_later)"
proof -
  have l: "lines script3 = lines script3_later"
    and c: "characters script3 \<noteq> characters script3_later"
    by (simp_all add: script3_later_def script3_def)
  from core_analysis_deterministic [of small_ucd source_config script3 script3_later] l c
  show ?thesis by blast
qed

end
